theory Spec2Isabelle
  imports Main "HOL-Library.AList"
begin

section \<open>Strings and arrays\<close>

text \<open>
  Strings are character lists, a character being a code unit from 0 to 255.
  \<open>String.prototype.trim\<close> removes the white space and the line terminators of the
  language from both ends. Among the code units from 0 to 255 these are the tab, the line
  feed, the vertical tab, the form feed, the carriage return, the space and the no-break
  space U+00A0; the others (U+FEFF, U+1680, U+2000 to U+200A, U+2028, U+2029, U+202F,
  U+205F, U+3000) are no values of the character type.
\<close>

definition isWhitespace :: "char \<Rightarrow> bool" where
  "isWhitespace c \<longleftrightarrow>
     c \<in> set [CHR 0x09, CHR 0x0A, CHR 0x0B, CHR 0x0C, CHR 0x0D, CHR '' '', CHR 0xA0]"

definition trim :: "string \<Rightarrow> string" where
  "trim s = rev (dropWhile isWhitespace (rev (dropWhile isWhitespace s)))"

text \<open>
  \<open>s.split(sep)\<close> for a one-character separator: the pieces between the separators, so
  the result always has at least one element.
\<close>

fun split_str :: "char \<Rightarrow> string \<Rightarrow> string list" where
  "split_str sep [] = [[]]"
| "split_str sep (c # cs) =
     (if c = sep then [] # split_str sep cs
      else (case split_str sep cs of
              [] \<Rightarrow> [[c]]
            | piece # pieces \<Rightarrow> (c # piece) # pieces))"

text \<open>\<open>xs[i]\<close>: \<open>None\<close> stands for \<open>undefined\<close>, the value of an index out of range.\<close>

definition at :: "'a list \<Rightarrow> nat \<Rightarrow> 'a option" where
  "at xs i = (if i < length xs then Some (xs ! i) else None)"

text \<open>\<open>xs.indexOf(x)\<close>: the first position of \<open>x\<close>; \<open>None\<close> stands for \<open>-1\<close>.\<close>

fun indexOf :: "'a list \<Rightarrow> 'a \<Rightarrow> nat option" where
  "indexOf [] x = None"
| "indexOf (y # ys) x = (if y = x then Some 0 else map_option Suc (indexOf ys x))"

section \<open>Calendar dates\<close>

text \<open>
  Modelled from the spec: the functions \<open>parse\<close>, \<open>isValid\<close>, \<open>isBefore\<close>, \<open>isAfter\<close>,
  \<open>isSameDay\<close> and \<open>addDays\<close> come from the date library the component imports, which is
  not part of the sources. The spec fixes what they do here: a date is a calendar date, the
  only accepted format is a four-digit year, a two-digit month and a two-digit day
  separated by hyphens, and a value that denotes no calendar date (month 13, February 30)
  is invalid. A date is represented by the number of its day, counted from 1970-01-01, so
  that the day after \<open>d\<close> is \<open>d + 1\<close>.
\<close>

type_synonym Date = int

definition isLeapYear :: "int \<Rightarrow> bool" where
  "isLeapYear y \<longleftrightarrow> y mod 4 = 0 \<and> (y mod 100 \<noteq> 0 \<or> y mod 400 = 0)"

definition daysInMonth :: "int \<Rightarrow> int \<Rightarrow> int" where
  "daysInMonth y m =
     (if m = 2 then (if isLeapYear y then 29 else 28)
      else if m = 4 \<or> m = 6 \<or> m = 9 \<or> m = 11 then 30
      else 31)"

definition validCalendarDate :: "int \<Rightarrow> int \<Rightarrow> int \<Rightarrow> bool" where
  "validCalendarDate y m d \<longleftrightarrow> 1 \<le> m \<and> m \<le> 12 \<and> 1 \<le> d \<and> d \<le> daysInMonth y m"

text \<open>The day number of year \<open>y\<close>, month \<open>m\<close> (1 to 12), day \<open>d\<close> of the Gregorian calendar.\<close>

definition daysFromCivil :: "int \<Rightarrow> int \<Rightarrow> int \<Rightarrow> Date" where
  "daysFromCivil y m d =
     (let y' = (if m \<le> 2 then y - 1 else y);
          era = y' div 400;
          yoe = y' - era * 400;
          doy = (153 * (if m > 2 then m - 3 else m + 9) + 2) div 5 + d - 1;
          doe = yoe * 365 + yoe div 4 - yoe div 100 + doy
      in era * 146097 + doe - 719468)"

definition isDigit :: "char \<Rightarrow> bool" where
  "isDigit c \<longleftrightarrow> c \<in> set ''0123456789''"

definition digitValue :: "char \<Rightarrow> int" where
  "digitValue c = of_char c - 48"

definition decimalValue :: "string \<Rightarrow> int" where
  "decimalValue s = foldl (\<lambda>n c. 10 * n + digitValue c) 0 s"

text \<open>The exact format: ten characters, digits except for the two hyphens.\<close>

definition matchesFormat :: "string \<Rightarrow> bool" where
  "matchesFormat s \<longleftrightarrow>
     length s = 10 \<and> list_all isDigit (take 4 s) \<and> s ! 4 = CHR ''-'' \<and>
     list_all isDigit (take 2 (drop 5 s)) \<and> s ! 7 = CHR ''-'' \<and>
     list_all isDigit (drop 8 s)"

definition yearOf :: "string \<Rightarrow> int" where
  "yearOf s = decimalValue (take 4 s)"

definition monthOf :: "string \<Rightarrow> int" where
  "monthOf s = decimalValue (take 2 (drop 5 s))"

definition dayOf :: "string \<Rightarrow> int" where
  "dayOf s = decimalValue (drop 8 s)"

text \<open>
  Modelled from the spec: \<open>parse(dateStr, 'yyyy-MM-dd', new Date())\<close> followed by
  \<open>isValid\<close>, of the date library. The result is the date for a string of the exact format
  that denotes a calendar date, and no date for any other string.
\<close>

definition parse :: "string \<Rightarrow> Date option" where
  "parse s =
     (if matchesFormat s \<and> validCalendarDate (yearOf s) (monthOf s) (dayOf s)
      then Some (daysFromCivil (yearOf s) (monthOf s) (dayOf s))
      else None)"

text \<open>
  Modelled from the spec: the comparisons and the addition of days of the date library, on
  calendar dates.
\<close>

definition isBefore :: "Date \<Rightarrow> Date \<Rightarrow> bool" where
  "isBefore a b \<longleftrightarrow> a < b"

definition isAfter :: "Date \<Rightarrow> Date \<Rightarrow> bool" where
  "isAfter a b \<longleftrightarrow> a > b"

definition isSameDay :: "Date \<Rightarrow> Date \<Rightarrow> bool" where
  "isSameDay a b \<longleftrightarrow> a = b"

definition addDays :: "Date \<Rightarrow> int \<Rightarrow> Date" where
  "addDays d n = d + n"

text \<open>
  \<open>validateAndParseDate\<close>: \<open>null\<close> (here \<open>None\<close>) for a string that does not parse to a
  valid date. The cell it is given is \<open>undefined\<close> when the row is too short, which never
  parses.
\<close>

definition validateAndParseDate :: "string option \<Rightarrow> Date option" where
  "validateAndParseDate dateStr = (case dateStr of None \<Rightarrow> None | Some s \<Rightarrow> parse s)"

section \<open>Objects used as dictionaries\<close>

text \<open>
  An object literal is modelled by the list of its own properties in the order of their
  creation. Three facts of the language matter to \<open>processCSV\<close>:
  \<^item> reading \<open>obj[key]\<close> also finds the properties every object inherits from
    \<open>Object.prototype\<close>;
  \<^item> assigning to \<open>obj['__proto__']\<close> a value that is not an object creates no property;
  \<^item> \<open>Object.entries\<close> and \<open>Object.keys\<close> list the keys that are array indices first, in
    ascending numeric order, and the other keys after them in the order of their creation.
\<close>

definition Object_prototype_keys :: "string list" where
  "Object_prototype_keys =
     [''constructor'', ''__defineGetter__'', ''__defineSetter__'', ''hasOwnProperty'',
      ''__lookupGetter__'', ''__lookupSetter__'', ''isPrototypeOf'',
      ''propertyIsEnumerable'', ''toString'', ''valueOf'', ''__proto__'',
      ''toLocaleString'']"

text \<open>An array index is the canonical decimal form of an integer from 0 to \<open>2^32 - 2\<close>.\<close>

definition isArrayIndex :: "string \<Rightarrow> bool" where
  "isArrayIndex k \<longleftrightarrow>
     k \<noteq> [] \<and> list_all isDigit k \<and> (k = ''0'' \<or> hd k \<noteq> CHR ''0'') \<and>
     length k \<le> 10 \<and> decimalValue k \<le> 4294967294"

definition ownKeysOrder :: "string list \<Rightarrow> string list" where
  "ownKeysOrder ks =
     sort_key decimalValue (filter isArrayIndex ks) @ filter (\<lambda>k. \<not> isArrayIndex k) ks"

definition Object_entries :: "(string \<times> 'v) list \<Rightarrow> (string \<times> 'v) list" where
  "Object_entries obj =
     sort_key (\<lambda>kv. decimalValue (fst kv)) (filter (\<lambda>kv. isArrayIndex (fst kv)) obj) @
     filter (\<lambda>kv. \<not> isArrayIndex (fst kv)) obj"

text \<open>\<open>obj[k] = v\<close> on an object created by \<open>{}\<close>.\<close>

definition setProperty :: "string \<Rightarrow> 'v \<Rightarrow> (string \<times> 'v) list \<Rightarrow> (string \<times> 'v) list" where
  "setProperty k v obj = (if k = ''__proto__'' then obj else AList.update k v obj)"

text \<open>\<open>{...a, ...b}\<close>: the properties of \<open>a\<close>, then those of \<open>b\<close> written over them.\<close>

definition spread :: "(string \<times> 'v) list \<Rightarrow> (string \<times> 'v) list \<Rightarrow> (string \<times> 'v) list" where
  "spread a b = foldl (\<lambda>obj kv. AList.update (fst kv) (snd kv) obj) a b"

section \<open>Data model\<close>

record FieldMapping =
  phase :: string
  startDate :: string
  endDate :: string

text \<open>A cell value is a string, or \<open>undefined\<close> when the row has no such column.\<close>

type_synonym AdditionalData = "(string \<times> string option) list"

text \<open>The elements of \<open>phaseGroups[phase]\<close>.\<close>

record PhaseEntry =
  startDate :: Date
  endDate :: Date
  additionalData :: AdditionalData

record TimelineData =
  phase :: string
  startDate :: Date
  endDate :: Date
  additionalData :: "AdditionalData option"

record ManualEntry =
  phase :: string
  startMonth :: int
  endMonth :: int
  description :: string

type_synonym PhaseGroups = "(string \<times> PhaseEntry list) list"

text \<open>
  One constructor for each place where \<open>processCSV\<close> throws, named after the spec's error
  kinds: the three messages about missing data are the spec's \<open>EmptyDataset\<close>.
  \<open>TypeError\<close> is the error of the runtime for calling a method that does not exist.
  \<open>InvalidManualEntry\<close> is the error \<open>handleManualSubmit\<close> reports. The handler of
  \<open>processCSV\<close> shows one message for every error it catches.
\<close>

datatype error =
    InvalidMapping
  | NoDataRows
  | InvalidDateFormat
  | InvalidDateRange string
  | NoValidData
  | NoTimelineData
  | TypeError
  | InvalidManualEntry

definition isEmptyDataset :: "error \<Rightarrow> bool" where
  "isEmptyDataset e \<longleftrightarrow> e = NoDataRows \<or> e = NoValidData \<or> e = NoTimelineData"

text \<open>
  What \<open>processCSV\<close> does when it does not throw: it asks for a mapping, showing the
  headers, or it delivers the timeline.
\<close>

datatype outcome = MappingRequired "string list" | Timeline "TimelineData list"

section \<open>processCSV\<close>

text \<open>The cells of a line: \<open>line.split(',').map(value => value.trim())\<close>.\<close>

definition cells :: "string \<Rightarrow> string list" where
  "cells line = map trim (split_str CHR '','' line)"

text \<open>The \<open>headers.forEach\<close> that collects the columns other than the three mapped ones.\<close>

definition buildAdditionalData ::
  "string list \<Rightarrow> string list \<Rightarrow> nat \<Rightarrow> nat \<Rightarrow> nat \<Rightarrow> AdditionalData" where
  "buildAdditionalData headers values phaseIndex startDateIndex endDateIndex =
     foldl (\<lambda>ad ih.
              if fst ih \<noteq> phaseIndex \<and> fst ih \<noteq> startDateIndex \<and> fst ih \<noteq> endDateIndex
              then setProperty (snd ih) (at values (fst ih)) ad
              else ad)
       [] (enumerate 0 headers)"

text \<open>
  \<open>if (!phaseGroups[phase]) phaseGroups[phase] = []; phaseGroups[phase].push(entry)\<close>.
  For a phase that is not yet a property of the object but names a property of
  \<open>Object.prototype\<close>, the read finds the inherited value, no array is created and the
  call of \<open>push\<close> throws.
\<close>

definition pushEntry :: "string \<Rightarrow> PhaseEntry \<Rightarrow> PhaseGroups \<Rightarrow> error + PhaseGroups" where
  "pushEntry ph entry groups =
     (case map_of groups ph of
        Some entries \<Rightarrow> Inr (AList.update ph (entries @ [entry]) groups)
      | None \<Rightarrow>
          if ph \<in> set Object_prototype_keys then Inl TypeError
          else Inr (groups @ [(ph, [entry])]))"

text \<open>The body of the loop over the data rows.\<close>

definition processRow ::
  "string list \<Rightarrow> nat \<Rightarrow> nat \<Rightarrow> nat \<Rightarrow> string \<Rightarrow> PhaseGroups \<Rightarrow> error + PhaseGroups" where
  "processRow headers phaseIndex startDateIndex endDateIndex line groups =
     (let values = cells line in
      case at values phaseIndex of
        None \<Rightarrow> Inr groups
      | Some ph \<Rightarrow>
          if ph = [] then Inr groups
          else
            (case (validateAndParseDate (at values startDateIndex),
                   validateAndParseDate (at values endDateIndex)) of
               (Some sd, Some ed) \<Rightarrow>
                 if isBefore ed sd then Inl (InvalidDateRange ph)
                 else pushEntry ph
                        \<lparr>PhaseEntry.startDate = sd, endDate = ed,
                         additionalData =
                           buildAdditionalData headers values
                             phaseIndex startDateIndex endDateIndex\<rparr>
                        groups
             | _ \<Rightarrow> Inl InvalidDateFormat))"

fun collectRows ::
  "string list \<Rightarrow> nat \<Rightarrow> nat \<Rightarrow> nat \<Rightarrow> string list \<Rightarrow> PhaseGroups \<Rightarrow> error + PhaseGroups" where
  "collectRows headers p s e [] groups = Inr groups"
| "collectRows headers p s e (line # rest) groups =
     (case processRow headers p s e line groups of
        Inl err \<Rightarrow> Inl err
      | Inr groups' \<Rightarrow> collectRows headers p s e rest groups')"

text \<open>The callback of \<open>entries.reduce\<close>.\<close>

definition mergeStep :: "PhaseEntry list \<Rightarrow> PhaseEntry \<Rightarrow> PhaseEntry list" where
  "mergeStep acc cur =
     (if acc = [] then [cur]
      else
        (let lastRange = last acc in
         if isBefore (PhaseEntry.startDate cur) (PhaseEntry.endDate lastRange) \<or>
            isSameDay (PhaseEntry.startDate cur) (PhaseEntry.endDate lastRange) \<or>
            isSameDay (addDays (PhaseEntry.endDate lastRange) 1) (PhaseEntry.startDate cur)
         then butlast acc @
              [lastRange\<lparr>PhaseEntry.endDate :=
                           (if isAfter (PhaseEntry.endDate cur) (PhaseEntry.endDate lastRange)
                            then PhaseEntry.endDate cur
                            else PhaseEntry.endDate lastRange),
                         PhaseEntry.additionalData :=
                           spread (PhaseEntry.additionalData lastRange)
                                  (PhaseEntry.additionalData cur)\<rparr>]
         else acc @ [cur]))"

text \<open>The stable sort by start date, then the reduce.\<close>

definition mergedRanges :: "PhaseEntry list \<Rightarrow> PhaseEntry list" where
  "mergedRanges entries = foldl mergeStep [] (sort_key PhaseEntry.startDate entries)"

text \<open>
  The callback of \<open>Object.entries(phaseGroups).map\<close>. Reading a field of
  \<open>mergedRanges[0]\<close> throws when there is no range.
\<close>

definition consolidatePhase :: "string \<times> PhaseEntry list \<Rightarrow> error + TimelineData" where
  "consolidatePhase pe =
     (case mergedRanges (snd pe) of
        [] \<Rightarrow> Inl TypeError
      | firstRange # _ \<Rightarrow>
          Inr \<lparr>TimelineData.phase = fst pe,
               startDate = PhaseEntry.startDate firstRange,
               endDate = PhaseEntry.endDate firstRange,
               additionalData = Some (PhaseEntry.additionalData firstRange)\<rparr>)"

fun mapResult :: "('a \<Rightarrow> error + 'b) \<Rightarrow> 'a list \<Rightarrow> error + 'b list" where
  "mapResult f [] = Inr []"
| "mapResult f (x # xs) =
     (case f x of
        Inl err \<Rightarrow> Inl err
      | Inr y \<Rightarrow> (case mapResult f xs of Inl err \<Rightarrow> Inl err | Inr ys \<Rightarrow> Inr (y # ys)))"

text \<open>\<open>lines.slice(1).filter(line => line.trim())\<close>.\<close>

definition dataRows :: "string list \<Rightarrow> string list" where
  "dataRows lines = filter (\<lambda>line. trim line \<noteq> []) (tl lines)"

text \<open>
  The part of \<open>processCSV\<close> after the three indices are known: collect, check, consolidate.
\<close>

definition consolidate ::
  "string list \<Rightarrow> string list \<Rightarrow> nat \<Rightarrow> nat \<Rightarrow> nat \<Rightarrow> error + TimelineData list" where
  "consolidate headers lines phaseIndex startDateIndex endDateIndex =
     (if dataRows lines = [] then Inl NoDataRows
      else
        (case collectRows headers phaseIndex startDateIndex endDateIndex (dataRows lines) [] of
           Inl err \<Rightarrow> Inl err
         | Inr phaseGroups \<Rightarrow>
             if phaseGroups = [] then Inl NoValidData
             else
               (case mapResult consolidatePhase (Object_entries phaseGroups) of
                  Inl err \<Rightarrow> Inl err
                | Inr consolidatedData \<Rightarrow>
                    if consolidatedData = [] then Inl NoTimelineData
                    else Inr consolidatedData)))"

text \<open>The part of \<open>processCSV\<close> that resolves the mapping against the headers.\<close>

definition withMapping :: "string list \<Rightarrow> string list \<Rightarrow> FieldMapping \<Rightarrow> error + outcome" where
  "withMapping headers lines mapping =
     (case (indexOf headers (FieldMapping.phase mapping),
            indexOf headers (FieldMapping.startDate mapping),
            indexOf headers (FieldMapping.endDate mapping)) of
        (Some phaseIndex, Some startDateIndex, Some endDateIndex) \<Rightarrow>
          map_sum id Timeline (consolidate headers lines phaseIndex startDateIndex endDateIndex)
      | _ \<Rightarrow> Inl InvalidMapping)"

definition headersOf :: "string \<Rightarrow> string list" where
  "headersOf csvText =
     (case split_str CHR 0x0A csvText of [] \<Rightarrow> [] | line # _ \<Rightarrow> cells line)"

definition processCSV :: "string \<Rightarrow> FieldMapping option \<Rightarrow> error + outcome" where
  "processCSV csvText mapping =
     (let lines = split_str CHR 0x0A csvText in
      case lines of
        [] \<Rightarrow> Inl TypeError
      | line # _ \<Rightarrow>
          (let headers = cells line in
           case mapping of
             None \<Rightarrow>
               if indexOf headers ''phase'' = None \<or> indexOf headers ''startDate'' = None \<or>
                  indexOf headers ''endDate'' = None
               then Inr (MappingRequired headers)
               else withMapping headers lines
                      \<lparr>FieldMapping.phase = ''phase'', startDate = ''startDate'',
                       endDate = ''endDate''\<rparr>
           | Some m \<Rightarrow> withMapping headers lines m))"

section \<open>handleManualSubmit\<close>

text \<open>
  \<open>new Date(year, month, 1)\<close>: the first day of a month counted from 0. A month outside
  0 to 11 moves into the neighbouring years, and a year from 0 to 99 means 1900 plus it.
\<close>

definition newDate :: "int \<Rightarrow> int \<Rightarrow> Date" where
  "newDate year month =
     (let y = (if 0 \<le> year \<and> year \<le> 99 then 1900 + year else year)
      in daysFromCivil (y + month div 12) (month mod 12 + 1) 1)"

definition validManualEntry :: "ManualEntry \<Rightarrow> bool" where
  "validManualEntry entry \<longleftrightarrow>
     trim (ManualEntry.phase entry) \<noteq> [] \<and> startMonth entry \<le> endMonth entry"

definition toTimelineEntry :: "int \<Rightarrow> ManualEntry \<Rightarrow> TimelineData" where
  "toTimelineEntry currentYear entry =
     \<lparr>TimelineData.phase = ManualEntry.phase entry,
      startDate = newDate currentYear (startMonth entry),
      endDate = newDate currentYear (endMonth entry),
      additionalData =
        (if description entry \<noteq> [] then Some [(''description'', Some (description entry))]
         else None)\<rparr>"

text \<open>
  The entries of the form, the answer of the confirmation dialog and the current year go
  in. \<open>Inl InvalidManualEntry\<close> is the error message; \<open>Inr None\<close> is the dialog declined,
  where nothing is delivered; \<open>Inr (Some records)\<close> is the timeline handed to
  \<open>setTimelineData\<close>.
\<close>

definition handleManualSubmit ::
  "ManualEntry list \<Rightarrow> bool \<Rightarrow> int \<Rightarrow> error + TimelineData list option" where
  "handleManualSubmit manualEntries confirmed currentYear =
     (if \<not> list_all validManualEntry manualEntries then Inl InvalidManualEntry
      else if confirmed then Inr (Some (map (toTimelineEntry currentYear) manualEntries))
      else Inr None)"

section \<open>Notions used to state the properties\<close>

text \<open>The phase of a data row as the loop sees it: the trimmed cell of the phase column when
  it is there and not empty. A row without one is skipped.\<close>

definition phaseOf :: "nat \<Rightarrow> string \<Rightarrow> string option" where
  "phaseOf phaseIndex line =
     (case at (cells line) phaseIndex of
        None \<Rightarrow> None
      | Some ph \<Rightarrow> if ph = [] then None else Some ph)"

text \<open>The phases of the rows that are not skipped, in row order, with repetitions.\<close>

definition phasesOf :: "nat \<Rightarrow> string list \<Rightarrow> string list" where
  "phasesOf phaseIndex rows = List.map_filter (phaseOf phaseIndex) rows"

text \<open>The entry the loop builds from a row whose two dates parse.\<close>

definition rowEntry :: "string list \<Rightarrow> nat \<Rightarrow> nat \<Rightarrow> nat \<Rightarrow> string \<Rightarrow> PhaseEntry option" where
  "rowEntry headers p s e line =
     (case (validateAndParseDate (at (cells line) s), validateAndParseDate (at (cells line) e)) of
        (Some sd, Some ed) \<Rightarrow>
          Some \<lparr>PhaseEntry.startDate = sd, endDate = ed,
                additionalData = buildAdditionalData headers (cells line) p s e\<rparr>
      | _ \<Rightarrow> None)"

text \<open>The entries of the rows of one phase, in row order.\<close>

definition entriesOf ::
  "string list \<Rightarrow> nat \<Rightarrow> nat \<Rightarrow> nat \<Rightarrow> string list \<Rightarrow> string \<Rightarrow> PhaseEntry list" where
  "entriesOf headers p s e rows ph =
     List.map_filter (rowEntry headers p s e) (filter (\<lambda>line. phaseOf p line = Some ph) rows)"

text \<open>The elements of a list in the order of their first appearance, each once.\<close>

definition firstAppearance :: "'a list \<Rightarrow> 'a list" where
  "firstAppearance xs = rev (remdups (rev xs))"

text \<open>The array stored under a phase, empty when there is none.\<close>

definition groupEntries :: "PhaseGroups \<Rightarrow> string \<Rightarrow> PhaseEntry list" where
  "groupEntries groups ph = (case map_of groups ph of None \<Rightarrow> [] | Some entries \<Rightarrow> entries)"

text \<open>The keys of the object after the phases \<open>ps\<close> were stored one after the other.\<close>

definition addKeys :: "'a list \<Rightarrow> 'a list \<Rightarrow> 'a list" where
  "addKeys ks ps = foldl (\<lambda>acc k. if k \<in> set acc then acc else acc @ [k]) ks ps"


text \<open>
  A row that cannot stop the loop: it is skipped, or its dates parse, its end date is not
  before its start date and its phase does not name a property of \<open>Object.prototype\<close>.
\<close>

definition rowPasses :: "string list \<Rightarrow> nat \<Rightarrow> nat \<Rightarrow> nat \<Rightarrow> string \<Rightarrow> bool" where
  "rowPasses headers p s e line \<longleftrightarrow>
     (case phaseOf p line of
        None \<Rightarrow> True
      | Some ph \<Rightarrow>
          (case rowEntry headers p s e line of
             None \<Rightarrow> False
           | Some en \<Rightarrow>
               \<not> isBefore (PhaseEntry.endDate en) (PhaseEntry.startDate en) \<and>
               ph \<notin> set Object_prototype_keys))"


section \<open>The day number follows the calendar\<close>

text \<open>
  Adding one to the day number of a valid date gives the day number of the next date of
  the calendar: the next day of the month, the first day of the next month, or the first
  of January of the next year.
\<close>

lemma daysFromCivil_next_day: "daysFromCivil y m (d + 1) = daysFromCivil y m d + 1"
  by (simp add: daysFromCivil_def Let_def)

lemma daysFromCivil_next_year: "daysFromCivil (y + 1) 1 1 = daysFromCivil y 12 31 + 1"
  by (simp add: daysFromCivil_def Let_def)

lemma daysFromCivil_next_month_plain:
  assumes "1 \<le> m" "m < 12" "m \<noteq> 2"
  shows "daysFromCivil y (m + 1) 1 = daysFromCivil y m (daysInMonth y m) + 1"
proof -
  from assms have "m = 1 \<or> m = 3 \<or> m = 4 \<or> m = 5 \<or> m = 6 \<or> m = 7 \<or> m = 8 \<or> m = 9 \<or> m = 10 \<or> m = 11"
    by arith
  then show ?thesis
    by (elim disjE) (simp_all add: daysFromCivil_def daysInMonth_def Let_def)
qed

lemma div_step:
  fixes r n :: int
  assumes "0 < n"
  shows "(r + 1) div n = r div n + (if (r + 1) mod n = 0 then 1 else 0)"
proof (cases "r mod n + 1 = n")
  case True
  have "r + 1 = n * (r div n) + (r mod n + 1)"
    by simp
  with True have eq: "r + 1 = n * (r div n + 1) + 0"
    by (simp add: algebra_simps)
  from assms have "(r + 1) div n = r div n + 1"
    by (intro int_div_pos_eq [OF eq]) simp_all
  moreover from assms have "(r + 1) mod n = 0"
    by (intro int_mod_pos_eq [OF eq]) simp_all
  ultimately show ?thesis
    by simp
next
  case False
  have eq: "r + 1 = n * (r div n) + (r mod n + 1)"
    by simp
  from assms have bounds: "0 \<le> r mod n + 1" "r mod n + 1 < n"
    using False pos_mod_bound [of n r] pos_mod_sign [of n r] by linarith+
  have "(r + 1) div n = r div n"
    by (rule int_div_pos_eq [OF eq bounds])
  moreover have "(r + 1) mod n = r mod n + 1"
    by (rule int_mod_pos_eq [OF eq bounds])
  moreover from assms have "r mod n + 1 \<noteq> 0"
    using pos_mod_sign [of n r] by linarith
  ultimately show ?thesis
    by simp
qed

lemma daysFromCivil_era:
  assumes "(if m \<le> 2 then y - 1 else y) = 400 * q + r" and "0 \<le> r" and "r < 400"
  shows "daysFromCivil y m d =
           q * 146097 +
           (r * 365 + r div 4 - r div 100 +
            ((153 * (if m > 2 then m - 3 else m + 9) + 2) div 5 + d - 1)) - 719468"
proof -
  define y' where "y' = (if m \<le> 2 then y - 1 else y)"
  from assms(1) have eq: "y' = 400 * q + r"
    by (simp add: y'_def)
  have era: "y' div 400 = q"
    by (rule int_div_pos_eq [OF eq assms(2,3)])
  have yoe: "y' - q * 400 = r"
    using eq by simp
  have "daysFromCivil y m d =
      y' div 400 * 146097 +
      ((y' - y' div 400 * 400) * 365 + (y' - y' div 400 * 400) div 4 -
       (y' - y' div 400 * 400) div 100 +
       ((153 * (if m > 2 then m - 3 else m + 9) + 2) div 5 + d - 1)) - 719468"
    by (simp add: daysFromCivil_def Let_def y'_def)
  then show ?thesis
    by (simp only: era yoe)
qed

lemma daysFromCivil_march_first:
  "daysFromCivil y 3 1 = daysFromCivil y 2 (daysInMonth y 2) + 1"
proof -
  define q where "q = (y - 1) div 400"
  define r where "r = (y - 1) mod 400"
  have y: "y = 400 * q + (r + 1)" and r: "0 \<le> r" "r < 400"
    by (simp_all add: q_def r_def)
  from y have "(if (2::int) \<le> 2 then y - 1 else y) = 400 * q + r"
    by simp
  from daysFromCivil_era [OF this r]
  have feb: "daysFromCivil y 2 d =
      q * 146097 + (r * 365 + r div 4 - r div 100 + (336 + d)) - 719468" for d
    by simp
  have "y = 4 * (100 * q) + (r + 1)"
    using y by simp
  then have m4: "y mod 4 = (r + 1) mod 4"
    by (simp only: mod_mult_self4)
  have "y = 100 * (4 * q) + (r + 1)"
    using y by simp
  then have m100: "y mod 100 = (r + 1) mod 100"
    by (simp only: mod_mult_self4)
  show ?thesis
  proof (cases "r = 399")
    case True
    with y have eq: "y = 400 * (q + 1) + 0"
      by simp
    then have "(if (3::int) \<le> 2 then y - 1 else y) = 400 * (q + 1) + 0"
      by simp
    from daysFromCivil_era [OF this, of 1]
    have march: "daysFromCivil y 3 1 = (q + 1) * 146097 - 719468"
      by simp
    have "y mod 400 = 0"
      by (rule int_mod_pos_eq [OF eq]) simp_all
    moreover from True m4 m100 have "y mod 4 = 0" "y mod 100 = 0"
      by simp_all
    ultimately have "daysInMonth y 2 = 29"
      by (simp add: daysInMonth_def isLeapYear_def)
    with True show ?thesis
      by (simp add: feb march)
  next
    case False
    with r have bounds: "0 \<le> r + 1" "r + 1 < 400"
      by simp_all
    have yoe: "y mod 400 = r + 1"
      by (rule int_mod_pos_eq [OF y bounds])
    from y have "(if (3::int) \<le> 2 then y - 1 else y) = 400 * q + (r + 1)"
      by simp
    from daysFromCivil_era [OF this bounds, of 1]
    have march: "daysFromCivil y 3 1 =
        q * 146097 + ((r + 1) * 365 + (r + 1) div 4 - (r + 1) div 100) - 719468"
      by simp
    have c100: "(r + 1) mod 4 = 0" if "(r + 1) mod 100 = 0"
    proof -
      from that have "(100::int) dvd r + 1"
        by (simp add: mod_eq_0_iff_dvd)
      moreover have "(4::int) dvd 100"
        by simp
      ultimately have "(4::int) dvd r + 1"
        by (blast intro: dvd_trans)
      then show ?thesis
        by (simp add: mod_eq_0_iff_dvd)
    qed
    define a where "a = r div 4"
    define b where "b = r div 100"
    define c4 :: int where "c4 = (if (r + 1) mod 4 = 0 then 1 else 0)"
    define c100 :: int where "c100 = (if (r + 1) mod 100 = 0 then 1 else 0)"
    have d4: "(r + 1) div 4 = a + c4"
      unfolding a_def c4_def by (rule div_step) simp
    have d100: "(r + 1) div 100 = b + c100"
      unfolding b_def c100_def by (rule div_step) simp
    from r(1) have nz: "r + 1 \<noteq> 0"
      by simp
    have dim: "daysInMonth y 2 = 28 + c4 - c100"
    proof (cases "(r + 1) mod 100 = 0")
      case True
      with c100 [OF True] nz show ?thesis
        by (simp add: daysInMonth_def isLeapYear_def m4 m100 yoe c4_def c100_def)
    next
      case False
      with nz show ?thesis
        by (simp add: daysInMonth_def isLeapYear_def m4 m100 yoe c4_def c100_def)
    qed
    have "daysFromCivil y 2 (daysInMonth y 2) =
        q * 146097 + (r * 365 + a - b + (336 + (28 + c4 - c100))) - 719468"
      by (simp only: feb dim a_def b_def)
    moreover have "daysFromCivil y 3 1 =
        q * 146097 + ((r + 1) * 365 + (a + c4) - (b + c100)) - 719468"
      by (simp only: march d4 d100)
    ultimately show ?thesis
      by (simp add: algebra_simps)
  qed
qed

lemma daysFromCivil_next_month:
  assumes "1 \<le> m" and "m < 12"
  shows "daysFromCivil y (m + 1) 1 = daysFromCivil y m (daysInMonth y m) + 1"
proof (cases "m = 2")
  case True
  then show ?thesis
    by (simp add: daysFromCivil_march_first)
next
  case False
  with assms show ?thesis
    by (rule daysFromCivil_next_month_plain)
qed

lemma daysFromCivil_successor:
  assumes "validCalendarDate y m d"
  shows "daysFromCivil y m d + 1 =
           (if d < daysInMonth y m then daysFromCivil y m (d + 1)
            else if m < 12 then daysFromCivil y (m + 1) 1
            else daysFromCivil (y + 1) 1 1)"
proof (cases "d < daysInMonth y m")
  case True
  then show ?thesis
    by (simp add: daysFromCivil_next_day)
next
  case False
  with assms have last: "d = daysInMonth y m" and m: "1 \<le> m" "m \<le> 12"
    by (simp_all add: validCalendarDate_def)
  show ?thesis
  proof (cases "m < 12")
    case True
    with m(1) last False show ?thesis
      by (simp add: daysFromCivil_next_month)
  next
    case False
    with m have "m = 12"
      by simp
    with last have "d = 31"
      by (simp add: daysInMonth_def)
    with \<open>m = 12\<close> show ?thesis
      by (simp add: daysFromCivil_next_year daysInMonth_def)
  qed
qed

lemma daysFromCivil_epoch: "daysFromCivil 1970 1 1 = 0"
  by (simp add: daysFromCivil_def Let_def)

section \<open>Lemmas about the loop over the rows and the consolidation\<close>

subsection \<open>The body of the loop and the groups\<close>

lemma processRow_skip:
  "phaseOf p line = None \<Longrightarrow> processRow hs p s e line g = Inr g"
  by (auto simp: processRow_def phaseOf_def Let_def split: option.splits if_splits)

lemma processRow_phase:
  "phaseOf p line = Some ph \<Longrightarrow>
   processRow hs p s e line g =
     (case rowEntry hs p s e line of
        None \<Rightarrow> Inl InvalidDateFormat
      | Some en \<Rightarrow>
          if isBefore (PhaseEntry.endDate en) (PhaseEntry.startDate en)
          then Inl (InvalidDateRange ph)
          else pushEntry ph en g)"
  by (auto simp: processRow_def phaseOf_def rowEntry_def Let_def split: option.splits if_splits)

lemma key_iff_map_of: "k \<in> fst ` set g \<longleftrightarrow> map_of g k \<noteq> None"
  by (simp add: map_of_eq_None_iff)

lemma pushEntry_keys:
  assumes "pushEntry ph en g = Inr g'"
  shows "map fst g' = (if ph \<in> set (map fst g) then map fst g else map fst g @ [ph])"
proof (cases "map_of g ph")
  case None
  with assms show ?thesis
    by (simp add: pushEntry_def key_iff_map_of split: if_splits) auto
next
  case (Some es)
  with assms have "g' = AList.update ph (es @ [en]) g"
    by (simp add: pushEntry_def)
  moreover from Some have "ph \<in> set (map fst g)"
    by (simp add: key_iff_map_of)
  ultimately show ?thesis
    by (simp add: AList.update_keys)
qed

lemma pushEntry_entries:
  assumes "pushEntry ph en g = Inr g'"
  shows "groupEntries g' q = (if q = ph then groupEntries g ph @ [en] else groupEntries g q)"
proof (cases "map_of g ph")
  case None
  with assms have "g' = g @ [(ph, [en])]"
    by (simp add: pushEntry_def split: if_splits)
  with None show ?thesis
    by (auto simp: groupEntries_def map_add_def split: option.splits)
next
  case (Some es)
  with assms have "g' = AList.update ph (es @ [en]) g"
    by (simp add: pushEntry_def)
  with Some show ?thesis
    by (simp add: groupEntries_def update_conv')
qed


lemma phasesOf_Cons:
  "phasesOf p (line # rest) =
     (case phaseOf p line of None \<Rightarrow> phasesOf p rest | Some ph \<Rightarrow> ph # phasesOf p rest)"
  by (simp add: phasesOf_def split: option.splits)

lemma entriesOf_Cons:
  "entriesOf hs p s e (line # rest) ph =
     (if phaseOf p line = Some ph
      then (case rowEntry hs p s e line of None \<Rightarrow> [] | Some en \<Rightarrow> [en])
      else []) @ entriesOf hs p s e rest ph"
  by (simp add: entriesOf_def split: option.splits)

lemma remdups_drop_earlier:
  "x \<in> set ys \<Longrightarrow> remdups (xs @ x # ys) = remdups (xs @ ys)"
  by (induction xs) auto

lemma firstAppearance_known:
  "k \<in> set ks \<Longrightarrow> firstAppearance (ks @ k # ps) = firstAppearance (ks @ ps)"
  by (simp add: firstAppearance_def remdups_drop_earlier)

lemma addKeys_firstAppearance:
  "distinct ks \<Longrightarrow> addKeys ks ps = firstAppearance (ks @ ps)"
proof (induction ps arbitrary: ks)
  case Nil
  then show ?case
    by (simp add: addKeys_def firstAppearance_def distinct_remdups_id)
next
  case (Cons k ps)
  show ?case
  proof (cases "k \<in> set ks")
    case True
    with Cons show ?thesis
      by (simp add: addKeys_def firstAppearance_known)
  next
    case False
    with Cons.prems have "distinct (ks @ [k])"
      by simp
    from Cons.IH [OF this] False show ?thesis
      by (simp add: addKeys_def)
  qed
qed

lemma collectRows_keys:
  "collectRows hs p s e rows g = Inr g' \<Longrightarrow> map fst g' = addKeys (map fst g) (phasesOf p rows)"
proof (induction rows arbitrary: g)
  case Nil
  then show ?case
    by (simp add: addKeys_def phasesOf_def)
next
  case (Cons line rest)
  from Cons.prems obtain g1 where
    row: "processRow hs p s e line g = Inr g1" and rest: "collectRows hs p s e rest g1 = Inr g'"
    by (auto split: sum.splits)
  show ?case
  proof (cases "phaseOf p line")
    case None
    with row have "g1 = g"
      by (simp add: processRow_skip)
    with Cons.IH [OF rest] None show ?thesis
      by (simp add: phasesOf_Cons)
  next
    case (Some ph)
    with row obtain en where "pushEntry ph en g = Inr g1"
      by (auto simp: processRow_phase split: option.splits if_splits)
    from pushEntry_keys [OF this] Cons.IH [OF rest] Some show ?thesis
      by (simp add: phasesOf_Cons addKeys_def)
  qed
qed

lemma collectRows_entries:
  "collectRows hs p s e rows g = Inr g' \<Longrightarrow>
   groupEntries g' ph = groupEntries g ph @ entriesOf hs p s e rows ph"
proof (induction rows arbitrary: g)
  case Nil
  then show ?case
    by (simp add: entriesOf_def)
next
  case (Cons line rest)
  from Cons.prems obtain g1 where
    row: "processRow hs p s e line g = Inr g1" and rest: "collectRows hs p s e rest g1 = Inr g'"
    by (auto split: sum.splits)
  show ?case
  proof (cases "phaseOf p line")
    case None
    with row have "g1 = g"
      by (simp add: processRow_skip)
    with Cons.IH [OF rest] None show ?thesis
      by (simp add: entriesOf_Cons)
  next
    case (Some q)
    with row obtain en where en: "rowEntry hs p s e line = Some en" and "pushEntry q en g = Inr g1"
      by (auto simp: processRow_phase split: option.splits if_splits)
    from pushEntry_entries [OF this(2)] Cons.IH [OF rest] Some en show ?thesis
      by (simp add: entriesOf_Cons)
  qed
qed

subsection \<open>Spread and the first range\<close>

lemma spread_map_of_rev: "map_of (spread a b) = map_of a ++ map_of (rev b)"
proof (induction b arbitrary: a)
  case Nil
  show ?case by (simp add: spread_def)
next
  case (Cons kv b)
  have "spread a (kv # b) = spread (AList.update (fst kv) (snd kv) a) b"
    by (simp add: spread_def)
  then show ?case
    by (simp add: Cons.IH update_conv' map_add_upd_left ext) (simp add: map_add_def fun_eq_iff split: option.splits)
qed

lemma map_of_rev_distinct:
  "distinct (map fst xs) \<Longrightarrow> map_of (rev xs) = map_of xs"
proof (induction xs)
  case Nil
  show ?case by simp
next
  case (Cons kv xs)
  then have "map_of xs (fst kv) = None"
    by (simp add: map_of_eq_None_iff)
  with Cons show ?case
    by (cases kv) (auto simp: map_add_def fun_eq_iff split: option.splits)
qed

lemma spread_map_of:
  "distinct (map fst b) \<Longrightarrow> map_of (spread a b) = map_of a ++ map_of b"
  by (simp add: spread_map_of_rev map_of_rev_distinct)

lemma spread_keys_distinct:
  "distinct (map fst a) \<Longrightarrow> distinct (map fst (spread a b))"
proof (induction b arbitrary: a)
  case Nil
  then show ?case by (simp add: spread_def)
next
  case (Cons kv b)
  have "spread a (kv # b) = spread (AList.update (fst kv) (snd kv) a) b"
    by (simp add: spread_def)
  with Cons show ?case
    by (simp add: distinct_update)
qed

lemma mergeStep_nonempty: "mergeStep acc cur \<noteq> []"
  by (simp add: mergeStep_def Let_def)

lemma foldl_mergeStep_nonempty: "acc \<noteq> [] \<Longrightarrow> foldl mergeStep acc xs \<noteq> []"
  by (induction xs arbitrary: acc) (simp_all add: mergeStep_nonempty)

lemma hd_butlast_snoc:
  "acc \<noteq> [] \<Longrightarrow> hd (butlast acc @ [x]) = (if butlast acc = [] then x else hd acc)"
  by (cases acc) auto

lemma mergeStep_hd_start:
  assumes "acc \<noteq> []"
  shows "PhaseEntry.startDate (hd (mergeStep acc cur)) = PhaseEntry.startDate (hd acc)"
proof -
  have "butlast acc = [] \<Longrightarrow> last acc = hd acc"
    using assms by (cases acc) (auto split: if_splits)
  with assms show ?thesis
    by (auto simp: mergeStep_def Let_def hd_butlast_snoc)
qed

lemma foldl_mergeStep_hd_start:
  "acc \<noteq> [] \<Longrightarrow>
   PhaseEntry.startDate (hd (foldl mergeStep acc xs)) = PhaseEntry.startDate (hd acc)"
  by (induction xs arbitrary: acc) (simp_all add: mergeStep_nonempty mergeStep_hd_start)

lemma sort_key_hd_least:
  assumes "xs \<noteq> []"
  shows "sort_key f xs \<noteq> [] \<and> hd (sort_key f xs) \<in> set xs \<and>
         (\<forall>x \<in> set xs. f (hd (sort_key f xs)) \<le> f x)"
proof -
  from assms have ne: "sort_key f xs \<noteq> []"
    by (metis length_0_conv length_sort)
  then obtain y ys where ys: "sort_key f xs = y # ys"
    by (cases "sort_key f xs") auto
  have "sorted (map f (sort_key f xs))"
    by (rule sorted_sort_key)
  with ys have "\<forall>x \<in> set (y # ys). f y \<le> f x"
    by auto
  moreover have "set (y # ys) = set xs"
    using ys by (metis set_sort)
  ultimately show ?thesis
    using ys by auto
qed

lemma mergedRanges_first:
  assumes "entries \<noteq> []"
  shows "mergedRanges entries \<noteq> [] \<and>
         PhaseEntry.startDate (hd (mergedRanges entries)) = Min (PhaseEntry.startDate ` set entries)"
proof -
  let ?sorted = "sort_key PhaseEntry.startDate entries"
  from sort_key_hd_least [OF assms, of PhaseEntry.startDate]
  have ne: "?sorted \<noteq> []" and mem: "hd ?sorted \<in> set entries"
    and least: "\<forall>x \<in> set entries. PhaseEntry.startDate (hd ?sorted) \<le> PhaseEntry.startDate x"
    by auto
  from ne obtain y ys where ys: "?sorted = y # ys"
    by (cases ?sorted) auto
  have fold: "mergedRanges entries = foldl mergeStep [y] ys"
    by (simp add: mergedRanges_def ys mergeStep_def)
  have "Min (PhaseEntry.startDate ` set entries) = PhaseEntry.startDate y"
    using mem least ys by (intro Min_eqI) auto
  with fold show ?thesis
    by (simp add: foldl_mergeStep_nonempty foldl_mergeStep_hd_start)
qed

subsection \<open>Object.entries and the consolidated list\<close>

lemma insort_key_map_fst:
  "map fst (insort_key (\<lambda>kv. d (fst kv)) x xs) = insort_key d (fst x) (map fst xs)"
  by (induction xs) simp_all

lemma sort_key_map_fst:
  "map fst (sort_key (\<lambda>kv. d (fst kv)) xs) = sort_key d (map fst xs)"
  by (induction xs) (simp_all add: insort_key_map_fst)

lemma Object_entries_keys: "map fst (Object_entries obj) = ownKeysOrder (map fst obj)"
  by (simp add: Object_entries_def ownKeysOrder_def sort_key_map_fst filter_map comp_def)

lemma set_Object_entries: "set (Object_entries obj) = set obj"
  by (auto simp: Object_entries_def)

lemma Object_entries_Nil: "Object_entries obj = [] \<longleftrightarrow> obj = []"
  by (metis set_Object_entries set_empty)

lemma set_ownKeysOrder: "set (ownKeysOrder ks) = set ks"
  by (auto simp: ownKeysOrder_def)

lemma distinct_ownKeysOrder: "distinct ks \<Longrightarrow> distinct (ownKeysOrder ks)"
  by (auto simp: ownKeysOrder_def)

lemma ownKeysOrder_no_index:
  "\<forall>k \<in> set ks. \<not> isArrayIndex k \<Longrightarrow> ownKeysOrder ks = ks"
  by (simp add: ownKeysOrder_def filter_False)

lemma mapResult_Inr:
  "mapResult f xs = Inr ys \<Longrightarrow> list_all2 (\<lambda>x y. f x = Inr y) xs ys"
  by (induction xs arbitrary: ys) (auto split: sum.splits)

lemma mapResult_member:
  "mapResult f xs = Inr ys \<Longrightarrow> y \<in> set ys \<Longrightarrow> \<exists>x \<in> set xs. f x = Inr y"
  by (induction xs arbitrary: ys) (auto split: sum.splits)

lemma consolidatePhase_Inr:
  assumes "consolidatePhase pe = Inr r"
  shows "mergedRanges (snd pe) \<noteq> [] \<and> TimelineData.phase r = fst pe \<and>
         TimelineData.startDate r = PhaseEntry.startDate (hd (mergedRanges (snd pe))) \<and>
         TimelineData.endDate r = PhaseEntry.endDate (hd (mergedRanges (snd pe))) \<and>
         TimelineData.additionalData r =
           Some (PhaseEntry.additionalData (hd (mergedRanges (snd pe))))"
  using assms by (auto simp: consolidatePhase_def split: list.splits)

lemma consolidate_Inr:
  assumes "consolidate hs lines p s e = Inr out"
  shows "\<exists>g. collectRows hs p s e (dataRows lines) [] = Inr g \<and>
             mapResult consolidatePhase (Object_entries g) = Inr out"
  using assms by (auto simp: consolidate_def split: if_splits sum.splits)

lemma distinct_firstAppearance: "distinct (firstAppearance xs)"
  by (simp add: firstAppearance_def)

lemma set_firstAppearance: "set (firstAppearance xs) = set xs"
  by (simp add: firstAppearance_def)

lemma collectRows_from_empty:
  assumes "collectRows hs p s e rows [] = Inr g"
  shows "map fst g = firstAppearance (phasesOf p rows)"
    and "distinct (map fst g)"
    and "(ph, es) \<in> set g \<Longrightarrow> es = entriesOf hs p s e rows ph"
proof -
  from collectRows_keys [OF assms] show keys: "map fst g = firstAppearance (phasesOf p rows)"
    by (simp add: addKeys_firstAppearance)
  then show dist: "distinct (map fst g)"
    by (simp add: distinct_firstAppearance)
  assume "(ph, es) \<in> set g"
  with dist have "map_of g ph = Some es"
    by simp
  then have "groupEntries g ph = es"
    by (simp add: groupEntries_def)
  with collectRows_entries [OF assms, of ph] show "es = entriesOf hs p s e rows ph"
    by (simp add: groupEntries_def)
qed

lemma consolidate_phases:
  assumes "consolidate hs lines p s e = Inr out"
  shows "map TimelineData.phase out = ownKeysOrder (firstAppearance (phasesOf p (dataRows lines)))"
proof -
  from consolidate_Inr [OF assms] obtain g where
    g: "collectRows hs p s e (dataRows lines) [] = Inr g" and
    out: "mapResult consolidatePhase (Object_entries g) = Inr out"
    by blast
  from mapResult_Inr [OF out]
  have "list_all2 (\<lambda>x y. fst x = TimelineData.phase y) (Object_entries g) out"
    by (rule list_all2_mono) (simp add: consolidatePhase_Inr)
  then have "map fst (Object_entries g) = map TimelineData.phase out"
    by (induction rule: list_all2_induct) simp_all
  with collectRows_from_empty(1) [OF g] show ?thesis
    by (simp add: Object_entries_keys)
qed

lemma consolidate_record:
  assumes "consolidate hs lines p s e = Inr out" and "r \<in> set out"
  shows "consolidatePhase (TimelineData.phase r,
           entriesOf hs p s e (dataRows lines) (TimelineData.phase r)) = Inr r"
proof -
  from consolidate_Inr [OF assms(1)] obtain g where
    g: "collectRows hs p s e (dataRows lines) [] = Inr g" and
    out: "mapResult consolidatePhase (Object_entries g) = Inr out"
    by blast
  from mapResult_member [OF out assms(2)]
  obtain pe where pe: "pe \<in> set (Object_entries g)" "consolidatePhase pe = Inr r"
    by blast
  from pe(2) have ph: "fst pe = TimelineData.phase r"
    by (simp add: consolidatePhase_Inr)
  from pe(1) have "(fst pe, snd pe) \<in> set g"
    by (simp add: set_Object_entries)
  from collectRows_from_empty(3) [OF g this] ph pe(2) show ?thesis
    by (metis prod.collapse)
qed

lemma set_phasesOf:
  "set (phasesOf p rows) =
     {ph. ph \<noteq> [] \<and> (\<exists>line \<in> set rows. at (cells line) p = Some ph)}"
  by (induction rows) (auto simp: phasesOf_def phaseOf_def split: option.splits if_splits)

subsection \<open>The first failing row\<close>




lemma collectRows_append:
  "collectRows hs p s e (xs @ ys) g =
     (case collectRows hs p s e xs g of
        Inl err \<Rightarrow> Inl err
      | Inr g' \<Rightarrow> collectRows hs p s e ys g')"
  by (induction xs arbitrary: g) (auto split: sum.splits)

lemma pushEntry_succeeds:
  "ph \<notin> set Object_prototype_keys \<Longrightarrow> \<exists>g'. pushEntry ph en g = Inr g'"
  by (simp add: pushEntry_def split: option.splits)

lemma rowPasses_processRow:
  assumes "rowPasses hs p s e line"
  shows "\<exists>g'. processRow hs p s e line g = Inr g'"
proof (cases "phaseOf p line")
  case None
  then show ?thesis
    by (simp add: processRow_skip)
next
  case (Some ph)
  with assms obtain en where "rowEntry hs p s e line = Some en"
    "\<not> isBefore (PhaseEntry.endDate en) (PhaseEntry.startDate en)"
    "ph \<notin> set Object_prototype_keys"
    by (auto simp: rowPasses_def split: option.splits)
  with Some pushEntry_succeeds [of ph en g] show ?thesis
    by (simp add: processRow_phase)
qed

lemma rowsPass_collectRows:
  "list_all (rowPasses hs p s e) rows \<Longrightarrow> \<exists>g'. collectRows hs p s e rows g = Inr g'"
proof (induction rows arbitrary: g)
  case Nil
  show ?case by simp
next
  case (Cons line rest)
  then obtain g1 where "processRow hs p s e line g = Inr g1"
    using rowPasses_processRow [of hs p s e line g] by auto
  with Cons show ?case
    by simp
qed

lemma collectRows_failing_row:
  assumes "\<And>g. processRow hs p s e line g = Inl err"
  shows "\<exists>err'. collectRows hs p s e (pre @ line # post) g = Inl err'"
    and "list_all (rowPasses hs p s e) pre \<Longrightarrow>
         collectRows hs p s e (pre @ line # post) g = Inl err"
proof -
  show "\<exists>err'. collectRows hs p s e (pre @ line # post) g = Inl err'"
    by (cases "collectRows hs p s e pre g") (simp_all add: collectRows_append assms)
  assume "list_all (rowPasses hs p s e) pre"
  from rowsPass_collectRows [OF this, of g]
  show "collectRows hs p s e (pre @ line # post) g = Inl err"
    by (auto simp: collectRows_append assms)
qed

lemma consolidate_collect_error:
  "dataRows lines \<noteq> [] \<Longrightarrow> collectRows hs p s e (dataRows lines) [] = Inl err \<Longrightarrow>
   consolidate hs lines p s e = Inl err"
  by (simp add: consolidate_def)







subsection \<open>Gaps between the merged ranges\<close>

lemma mergeStep_separated:
  assumes "sorted_wrt (\<lambda>a b. PhaseEntry.endDate a + 1 < PhaseEntry.startDate b) acc"
    and "\<forall>r \<in> set acc. PhaseEntry.startDate r \<le> PhaseEntry.endDate r"
    and "PhaseEntry.startDate cur \<le> PhaseEntry.endDate cur"
  shows "sorted_wrt (\<lambda>a b. PhaseEntry.endDate a + 1 < PhaseEntry.startDate b) (mergeStep acc cur) \<and>
         (\<forall>r \<in> set (mergeStep acc cur). PhaseEntry.startDate r \<le> PhaseEntry.endDate r)"
proof (cases "acc = []")
  case True
  with assms(3) show ?thesis
    by (simp add: mergeStep_def)
next
  case False
  define xs where "xs = butlast acc"
  define l where "l = last acc"
  from False have acc: "acc = xs @ [l]"
    by (simp add: xs_def l_def)
  from assms(1) have sorted: "sorted_wrt (\<lambda>a b. PhaseEntry.endDate a + 1 < PhaseEntry.startDate b) xs"
    and before: "\<forall>x \<in> set xs. PhaseEntry.endDate x + 1 < PhaseEntry.startDate l"
    by (simp_all add: acc sorted_wrt_append)
  from assms(2) have valid: "\<forall>x \<in> set xs. PhaseEntry.startDate x \<le> PhaseEntry.endDate x"
    and l: "PhaseEntry.startDate l \<le> PhaseEntry.endDate l"
    by (simp_all add: acc)
  show ?thesis
  proof (cases "PhaseEntry.startDate cur \<le> PhaseEntry.endDate l + 1")
    case True
    then have "mergeStep acc cur =
        xs @ [l\<lparr>PhaseEntry.endDate :=
                  (if PhaseEntry.endDate cur > PhaseEntry.endDate l
                   then PhaseEntry.endDate cur else PhaseEntry.endDate l),
                PhaseEntry.additionalData :=
                  spread (PhaseEntry.additionalData l) (PhaseEntry.additionalData cur)\<rparr>]"
      by (auto simp: mergeStep_def acc Let_def isBefore_def isSameDay_def addDays_def isAfter_def)
    with sorted before valid l show ?thesis
      by (auto simp: sorted_wrt_append)
  next
    case False
    then have step: "mergeStep acc cur = acc @ [cur]"
      by (auto simp: mergeStep_def acc Let_def isBefore_def isSameDay_def addDays_def)
    from False before l have "\<forall>x \<in> set acc. PhaseEntry.endDate x + 1 < PhaseEntry.startDate cur"
      by (auto simp: acc)
    with assms step show ?thesis
      by (simp add: sorted_wrt_append)
  qed
qed

lemma foldl_mergeStep_separated:
  assumes "sorted_wrt (\<lambda>a b. PhaseEntry.endDate a + 1 < PhaseEntry.startDate b) acc"
    and "\<forall>r \<in> set acc. PhaseEntry.startDate r \<le> PhaseEntry.endDate r"
    and "\<forall>r \<in> set xs. PhaseEntry.startDate r \<le> PhaseEntry.endDate r"
  shows "sorted_wrt (\<lambda>a b. PhaseEntry.endDate a + 1 < PhaseEntry.startDate b)
           (foldl mergeStep acc xs)"
  using assms
proof (induction xs arbitrary: acc)
  case Nil
  then show ?case by simp
next
  case (Cons x xs)
  from Cons.prems have "PhaseEntry.startDate x \<le> PhaseEntry.endDate x"
    by simp
  from mergeStep_separated [OF Cons.prems(1,2) this] Cons.prems(3)
  show ?case
    by (simp add: Cons.IH)
qed

lemma mergedRanges_separated:
  assumes "\<forall>r \<in> set entries. PhaseEntry.startDate r \<le> PhaseEntry.endDate r"
  shows "sorted_wrt (\<lambda>a b. PhaseEntry.endDate a + 1 < PhaseEntry.startDate b)
           (mergedRanges entries)"
  unfolding mergedRanges_def
  by (rule foldl_mergeStep_separated) (simp_all add: assms)

lemma collectRows_entries_valid:
  "collectRows hs p s e rows g = Inr g' \<Longrightarrow>
   \<forall>en \<in> set (entriesOf hs p s e rows ph). PhaseEntry.startDate en \<le> PhaseEntry.endDate en"
proof (induction rows arbitrary: g)
  case Nil
  show ?case
    by (simp add: entriesOf_def)
next
  case (Cons line rest)
  from Cons.prems obtain g1 where
    row: "processRow hs p s e line g = Inr g1" and rest: "collectRows hs p s e rest g1 = Inr g'"
    by (auto split: sum.splits)
  show ?case
  proof (cases "phaseOf p line")
    case None
    with Cons.IH [OF rest] show ?thesis
      by (simp add: entriesOf_Cons)
  next
    case (Some q)
    with row obtain en where en: "rowEntry hs p s e line = Some en"
      and ok: "PhaseEntry.startDate en \<le> PhaseEntry.endDate en"
      by (auto simp: processRow_phase isBefore_def split: option.splits if_splits)
    have "set (entriesOf hs p s e (line # rest) ph) \<subseteq>
        insert en (set (entriesOf hs p s e rest ph))"
      by (cases "phaseOf p line = Some ph") (auto simp: entriesOf_Cons en)
    with Cons.IH [OF rest] ok show ?thesis
      by blast
  qed
qed

lemma distinct_map_filter_single:
  "distinct (map f xs) \<Longrightarrow> x \<in> set xs \<Longrightarrow> filter (\<lambda>y. f y = f x) xs = [x]"
proof (induction xs)
  case Nil
  then show ?case by simp
next
  case (Cons y ys)
  show ?case
  proof (cases "x = y")
    case True
    from Cons.prems(1) have "\<forall>z \<in> set ys. f z \<noteq> f y"
      by (auto simp: image_iff)
    then have "filter (\<lambda>z. f z = f y) ys = []"
      by (simp add: filter_empty_conv)
    with True show ?thesis
      by simp
  next
    case False
    with Cons.prems have "x \<in> set ys" "f y \<noteq> f x"
      by auto
    with Cons show ?thesis
      by simp
  qed
qed

subsection \<open>The errors the consolidation can end with\<close>

lemma processRow_error_kind:
  "processRow hs p s e line g = Inl err \<Longrightarrow>
   err = InvalidDateFormat \<or> err = TypeError \<or> (\<exists>ph. err = InvalidDateRange ph)"
  by (auto simp: processRow_def pushEntry_def Let_def split: option.splits if_splits)

lemma collectRows_error_kind:
  "collectRows hs p s e rows g = Inl err \<Longrightarrow>
   err = InvalidDateFormat \<or> err = TypeError \<or> (\<exists>ph. err = InvalidDateRange ph)"
proof (induction rows arbitrary: g)
  case Nil
  then show ?case by simp
next
  case (Cons line rest)
  then show ?case
    by (cases "processRow hs p s e line g") (auto dest: processRow_error_kind)
qed

lemma mapResult_consolidatePhase_error:
  "mapResult consolidatePhase xs = Inl err \<Longrightarrow> err = TypeError"
  by (induction xs) (auto simp: consolidatePhase_def split: sum.splits list.splits)

lemma mapResult_Nil: "mapResult f xs = Inr [] \<Longrightarrow> xs = []"
  by (cases xs) (auto split: sum.splits)

lemma collectRows_all_skipped:
  "\<forall>line \<in> set rows. phaseOf p line = None \<Longrightarrow> collectRows hs p s e rows g = Inr g"
  by (induction rows) (simp_all add: processRow_skip)

lemma phaseOf_None_iff:
  "phaseOf p line = None \<longleftrightarrow> at (cells line) p = None \<or> at (cells line) p = Some []"
  by (auto simp: phaseOf_def split: option.splits)

subsection \<open>Headers, months and additional data\<close>

lemma split_str_nonempty: "split_str sep s \<noteq> []"
  by (induction s) (auto split: list.splits)

lemma indexOf_None_iff: "indexOf xs x = None \<longleftrightarrow> x \<notin> set xs"
  by (induction xs) auto

lemma newDate_in_year:
  "99 < year \<Longrightarrow> 0 \<le> month \<Longrightarrow> month \<le> 11 \<Longrightarrow>
   newDate year month = daysFromCivil year (month + 1) 1"
  by (simp add: newDate_def)

lemma setProperty_distinct:
  "distinct (map fst obj) \<Longrightarrow> distinct (map fst (setProperty k v obj))"
  by (simp add: setProperty_def distinct_update)

lemma buildAdditionalData_distinct:
  "distinct (map fst (buildAdditionalData hs vs p s e))"
proof -
  have "distinct (map fst acc) \<Longrightarrow>
      distinct (map fst (foldl (\<lambda>ad ih.
              if fst ih \<noteq> p \<and> fst ih \<noteq> s \<and> fst ih \<noteq> e
              then setProperty (snd ih) (at vs (fst ih)) ad
              else ad) acc xs))" for acc :: AdditionalData and xs
    by (induction xs arbitrary: acc) (simp_all add: setProperty_distinct)
  from this [of "[]"] show ?thesis
    by (simp add: buildAdditionalData_def)
qed

lemma entriesOf_distinct_keys:
  assumes "en \<in> set (entriesOf hs p s e rows ph)"
  shows "distinct (map fst (PhaseEntry.additionalData en))"
proof -
  have "rowEntry hs p s e line = Some x \<Longrightarrow> distinct (map fst (PhaseEntry.additionalData x))"
    for line x
    by (auto simp: rowEntry_def buildAdditionalData_distinct split: option.splits)
  with assms show ?thesis
    by (induction rows) (auto simp: entriesOf_def split: option.splits if_splits)
qed

lemma no_break_space_example:
  "trim (CHR 0xA0 # ''phase'' @ [CHR 0xA0]) = ''phase'' \<and>
   processCSV
     (''phase,startDate,endDate\<newline>A,2024-01-01,2024-01-05\<newline>'' @
      CHR 0xA0 # '',2024-02-30,2023-01-01'')
     None =
     Inr (Timeline
       [\<lparr>TimelineData.phase = ''A'', startDate = daysFromCivil 2024 1 1,
          endDate = daysFromCivil 2024 1 5, additionalData = Some []\<rparr>])"
  by code_simp

lemma prototype_phase_example:
  "processCSV ''phase,startDate,endDate\<newline>constructor,2024-01-01,2024-01-10'' None =
     Inl TypeError"
  by code_simp

text \<open>
  With the three columns found, \<open>processCSV\<close> is the consolidation of its lines: the
  properties of \<open>consolidate\<close> below are properties of \<open>processCSV\<close>.
\<close>

lemma processCSV_with_mapping:
  assumes "indexOf (headersOf csvText) (FieldMapping.phase m) = Some p"
    and "indexOf (headersOf csvText) (FieldMapping.startDate m) = Some s"
    and "indexOf (headersOf csvText) (FieldMapping.endDate m) = Some e"
  shows "processCSV csvText (Some m) =
           map_sum id Timeline
             (consolidate (headersOf csvText) (split_str CHR 0x0A csvText) p s e)"
proof -
  obtain line rest where lines: "split_str CHR 0x0A csvText = line # rest"
    using split_str_nonempty [of "CHR 0x0A" csvText] by (cases "split_str CHR 0x0A csvText") auto
  then have hs: "headersOf csvText = cells line"
    by (simp add: headersOf_def)
  from assms show ?thesis
    by (simp add: processCSV_def lines hs withMapping_def Let_def)
qed

lemma processCSV_default_mapping:
  assumes "indexOf (headersOf csvText) ''phase'' = Some p"
    and "indexOf (headersOf csvText) ''startDate'' = Some s"
    and "indexOf (headersOf csvText) ''endDate'' = Some e"
  shows "processCSV csvText None =
           map_sum id Timeline
             (consolidate (headersOf csvText) (split_str CHR 0x0A csvText) p s e)"
proof -
  obtain line rest where lines: "split_str CHR 0x0A csvText = line # rest"
    using split_str_nonempty [of "CHR 0x0A" csvText] by (cases "split_str CHR 0x0A csvText") auto
  then have hs: "headersOf csvText = cells line"
    by (simp add: headersOf_def)
  from assms show ?thesis
    by (simp add: processCSV_def lines hs withMapping_def Let_def)
qed

section \<open>The merge of the date ranges\<close>

text \<open>
  C1. The ranges of a phase are the entries sorted by start date (a stable sort), folded
  from the left by \<open>mergeStep\<close>, which starts with the first entry. An entry merges into
  the current range, the last one, exactly when its start date is at most the end date of
  that range or is the day after it. The merged range keeps its start date, its end date
  is the later of the two end dates, and its additional data are those of the range
  overwritten by those of the entry. Any other entry is appended as a new range. An
  object has each key once, which is what the second assumption says of the entry.
\<close>

theorem merge_rule:
  assumes "acc \<noteq> []" and "distinct (map fst (PhaseEntry.additionalData cur))"
  shows "(PhaseEntry.startDate cur \<le> PhaseEntry.endDate (last acc) \<or>
          PhaseEntry.startDate cur = PhaseEntry.endDate (last acc) + 1 \<longrightarrow>
            (\<exists>merged. mergeStep acc cur = butlast acc @ [merged] \<and>
               PhaseEntry.startDate merged = PhaseEntry.startDate (last acc) \<and>
               PhaseEntry.endDate merged =
                 max (PhaseEntry.endDate (last acc)) (PhaseEntry.endDate cur) \<and>
               map_of (PhaseEntry.additionalData merged) =
                 map_of (PhaseEntry.additionalData (last acc)) ++
                 map_of (PhaseEntry.additionalData cur))) \<and>
         (\<not> (PhaseEntry.startDate cur \<le> PhaseEntry.endDate (last acc) \<or>
             PhaseEntry.startDate cur = PhaseEntry.endDate (last acc) + 1) \<longrightarrow>
            mergeStep acc cur = acc @ [cur]) \<and>
         mergeStep [] cur = [cur] \<and>
         mergedRanges entries = foldl mergeStep [] (sort_key PhaseEntry.startDate entries) \<and>
         sorted (map PhaseEntry.startDate (sort_key PhaseEntry.startDate entries)) \<and>
         filter (\<lambda>x. PhaseEntry.startDate x = d) (sort_key PhaseEntry.startDate entries) =
           filter (\<lambda>x. PhaseEntry.startDate x = d) entries"
proof (intro conjI impI)
  assume "PhaseEntry.startDate cur \<le> PhaseEntry.endDate (last acc) \<or>
          PhaseEntry.startDate cur = PhaseEntry.endDate (last acc) + 1"
  with assms(1) have "mergeStep acc cur =
      butlast acc @
        [(last acc)\<lparr>PhaseEntry.endDate :=
                       max (PhaseEntry.endDate (last acc)) (PhaseEntry.endDate cur),
                     PhaseEntry.additionalData :=
                       spread (PhaseEntry.additionalData (last acc))
                              (PhaseEntry.additionalData cur)\<rparr>]"
    by (auto simp: mergeStep_def Let_def isBefore_def isSameDay_def addDays_def isAfter_def
        max_def)
  then show "\<exists>merged. mergeStep acc cur = butlast acc @ [merged] \<and>
               PhaseEntry.startDate merged = PhaseEntry.startDate (last acc) \<and>
               PhaseEntry.endDate merged =
                 max (PhaseEntry.endDate (last acc)) (PhaseEntry.endDate cur) \<and>
               map_of (PhaseEntry.additionalData merged) =
                 map_of (PhaseEntry.additionalData (last acc)) ++
                 map_of (PhaseEntry.additionalData cur)"
    by (simp add: spread_map_of [OF assms(2)])
next
  assume "\<not> (PhaseEntry.startDate cur \<le> PhaseEntry.endDate (last acc) \<or>
             PhaseEntry.startDate cur = PhaseEntry.endDate (last acc) + 1)"
  with assms(1) show "mergeStep acc cur = acc @ [cur]"
    by (auto simp: mergeStep_def Let_def isBefore_def isSameDay_def addDays_def)
next
  show "mergeStep [] cur = [cur]"
    by (simp add: mergeStep_def)
  show "mergedRanges entries = foldl mergeStep [] (sort_key PhaseEntry.startDate entries)"
    by (simp add: mergedRanges_def)
  show "sorted (map PhaseEntry.startDate (sort_key PhaseEntry.startDate entries))"
    by (rule sorted_sort_key)
  show "filter (\<lambda>x. PhaseEntry.startDate x = d) (sort_key PhaseEntry.startDate entries) =
           filter (\<lambda>x. PhaseEntry.startDate x = d) entries"
    by (rule sort_key_stable)
qed

theorem merge_rule_witness:
  "mergeStep
     [\<lparr>PhaseEntry.startDate = daysFromCivil 2024 1 1, endDate = daysFromCivil 2024 1 10,
        additionalData = [(''note'', Some ''a''), (''owner'', Some ''ann'')]\<rparr>]
     \<lparr>PhaseEntry.startDate = daysFromCivil 2024 1 11, endDate = daysFromCivil 2024 1 20,
       additionalData = [(''note'', Some ''b'')]\<rparr> =
     [\<lparr>PhaseEntry.startDate = daysFromCivil 2024 1 1, endDate = daysFromCivil 2024 1 20,
        additionalData = [(''note'', Some ''b''), (''owner'', Some ''ann'')]\<rparr>] \<and>
   mergeStep
     [\<lparr>PhaseEntry.startDate = daysFromCivil 2024 1 1, endDate = daysFromCivil 2024 1 10,
        additionalData = [(''note'', Some ''a''), (''owner'', Some ''ann'')]\<rparr>]
     \<lparr>PhaseEntry.startDate = daysFromCivil 2024 1 12, endDate = daysFromCivil 2024 1 20,
       additionalData = [(''note'', Some ''b'')]\<rparr> =
     [\<lparr>PhaseEntry.startDate = daysFromCivil 2024 1 1, endDate = daysFromCivil 2024 1 10,
        additionalData = [(''note'', Some ''a''), (''owner'', Some ''ann'')]\<rparr>] @
     [\<lparr>PhaseEntry.startDate = daysFromCivil 2024 1 12, endDate = daysFromCivil 2024 1 20,
        additionalData = [(''note'', Some ''b'')]\<rparr>] \<and>
   daysFromCivil 2024 1 11 = daysFromCivil 2024 1 10 + 1 \<and>
   processCSV
     ''phase,startDate,endDate\<newline>X,2024-01-01,2024-01-10\<newline>X,2024-01-11,2024-01-20''
     None =
     Inr (Timeline
       [\<lparr>TimelineData.phase = ''X'', startDate = daysFromCivil 2024 1 1,
          endDate = daysFromCivil 2024 1 20, additionalData = Some []\<rparr>])"
proof -
  let ?a = "\<lparr>PhaseEntry.startDate = daysFromCivil 2024 1 1, endDate = daysFromCivil 2024 1 10,
        additionalData = [(''note'', Some ''a''), (''owner'', Some ''ann'')]\<rparr>"
  let ?b = "\<lparr>PhaseEntry.startDate = daysFromCivil 2024 1 11, endDate = daysFromCivil 2024 1 20,
       additionalData = [(''note'', Some ''b'')]\<rparr>"
  let ?c = "\<lparr>PhaseEntry.startDate = daysFromCivil 2024 1 12, endDate = daysFromCivil 2024 1 20,
       additionalData = [(''note'', Some ''b'')]\<rparr>"
  have ne: "[?a] \<noteq> []"
    by simp
  have keys: "distinct (map fst (PhaseEntry.additionalData ?c))"
    by simp
  have gap: "\<not> (PhaseEntry.startDate ?c \<le> PhaseEntry.endDate (last [?a]) \<or>
      PhaseEntry.startDate ?c = PhaseEntry.endDate (last [?a]) + 1)"
    by code_simp
  from merge_rule [OF ne keys] gap have apart: "mergeStep [?a] ?c = [?a] @ [?c]"
    by blast
  have merged: "mergeStep [?a] ?b =
      [\<lparr>PhaseEntry.startDate = daysFromCivil 2024 1 1, endDate = daysFromCivil 2024 1 20,
         additionalData = [(''note'', Some ''b''), (''owner'', Some ''ann'')]\<rparr>]"
    by code_simp
  have next_day: "daysFromCivil 2024 1 11 = daysFromCivil 2024 1 10 + 1"
    by code_simp
  have run: "processCSV
     ''phase,startDate,endDate\<newline>X,2024-01-01,2024-01-10\<newline>X,2024-01-11,2024-01-20''
     None =
     Inr (Timeline
       [\<lparr>TimelineData.phase = ''X'', startDate = daysFromCivil 2024 1 1,
          endDate = daysFromCivil 2024 1 20, additionalData = Some []\<rparr>])"
    by code_simp
  from merged apart next_day run show ?thesis
    by blast
qed

section \<open>Only the first range of a phase is delivered\<close>

text \<open>
  C2. When the consolidation succeeds, every record carries the start date, the end date
  and the additional data of the first merged range of its phase. Every later range of
  that phase starts more than one day after the end of the first one, and none of them is
  delivered: the record is the only one of its phase.
\<close>

theorem first_range_only:
  assumes "consolidate hs lines p s e = Inr out" and "r \<in> set out"
  shows "\<exists>firstRange later.
           mergedRanges (entriesOf hs p s e (dataRows lines) (TimelineData.phase r)) =
             firstRange # later \<and>
           TimelineData.startDate r = PhaseEntry.startDate firstRange \<and>
           TimelineData.endDate r = PhaseEntry.endDate firstRange \<and>
           TimelineData.additionalData r = Some (PhaseEntry.additionalData firstRange) \<and>
           (\<forall>x \<in> set later. PhaseEntry.endDate firstRange + 1 < PhaseEntry.startDate x) \<and>
           filter (\<lambda>r'. TimelineData.phase r' = TimelineData.phase r) out = [r]"
proof -
  let ?entries = "entriesOf hs p s e (dataRows lines) (TimelineData.phase r)"
  from consolidatePhase_Inr [OF consolidate_record [OF assms]]
  have ne: "mergedRanges ?entries \<noteq> []"
    and fields: "TimelineData.startDate r = PhaseEntry.startDate (hd (mergedRanges ?entries))"
      "TimelineData.endDate r = PhaseEntry.endDate (hd (mergedRanges ?entries))"
      "TimelineData.additionalData r =
         Some (PhaseEntry.additionalData (hd (mergedRanges ?entries)))"
    by simp_all
  from ne obtain firstRange later where ranges: "mergedRanges ?entries = firstRange # later"
    by (cases "mergedRanges ?entries") auto
  from consolidate_Inr [OF assms(1)] obtain g where
    "collectRows hs p s e (dataRows lines) [] = Inr g"
    by blast
  from mergedRanges_separated [OF collectRows_entries_valid [OF this]]
  have "sorted_wrt (\<lambda>a b. PhaseEntry.endDate a + 1 < PhaseEntry.startDate b)
          (mergedRanges ?entries)" .
  with ranges have gap: "\<forall>x \<in> set later. PhaseEntry.endDate firstRange + 1 < PhaseEntry.startDate x"
    by simp
  from consolidate_phases [OF assms(1)] have "distinct (map TimelineData.phase out)"
    by (simp add: distinct_ownKeysOrder distinct_firstAppearance)
  from distinct_map_filter_single [OF this assms(2)]
  have "filter (\<lambda>r'. TimelineData.phase r' = TimelineData.phase r) out = [r]" .
  with ranges fields gap show ?thesis
    by simp
qed

theorem first_range_only_witness:
  "consolidate [''phase'', ''startDate'', ''endDate'', ''note'']
     [''phase,startDate,endDate,note'', ''X,2024-01-01,2024-01-05,a'',
      ''X,2024-01-10,2024-01-15,b''] 0 1 2 =
   Inr [\<lparr>TimelineData.phase = ''X'', startDate = daysFromCivil 2024 1 1,
          endDate = daysFromCivil 2024 1 5, additionalData = Some [(''note'', Some ''a'')]\<rparr>] \<and>
   mergedRanges
     (entriesOf [''phase'', ''startDate'', ''endDate'', ''note''] 0 1 2
        (dataRows [''phase,startDate,endDate,note'', ''X,2024-01-01,2024-01-05,a'',
           ''X,2024-01-10,2024-01-15,b'']) ''X'') =
     [\<lparr>PhaseEntry.startDate = daysFromCivil 2024 1 1, endDate = daysFromCivil 2024 1 5,
        additionalData = [(''note'', Some ''a'')]\<rparr>,
      \<lparr>PhaseEntry.startDate = daysFromCivil 2024 1 10, endDate = daysFromCivil 2024 1 15,
        additionalData = [(''note'', Some ''b'')]\<rparr>] \<and>
   daysFromCivil 2024 1 5 + 1 < daysFromCivil 2024 1 10"
proof -
  let ?hs = "[''phase'', ''startDate'', ''endDate'', ''note'']"
  let ?lines = "[''phase,startDate,endDate,note'', ''X,2024-01-01,2024-01-05,a'',
      ''X,2024-01-10,2024-01-15,b'']"
  let ?r = "\<lparr>TimelineData.phase = ''X'', startDate = daysFromCivil 2024 1 1,
          endDate = daysFromCivil 2024 1 5, additionalData = Some [(''note'', Some ''a'')]\<rparr>"
  let ?first = "\<lparr>PhaseEntry.startDate = daysFromCivil 2024 1 1, endDate = daysFromCivil 2024 1 5,
        additionalData = [(''note'', Some ''a'')]\<rparr>"
  let ?second = "\<lparr>PhaseEntry.startDate = daysFromCivil 2024 1 10,
        endDate = daysFromCivil 2024 1 15, additionalData = [(''note'', Some ''b'')]\<rparr>"
  have run: "consolidate ?hs ?lines 0 1 2 = Inr [?r]"
    by code_simp
  have ranges: "mergedRanges (entriesOf ?hs 0 1 2 (dataRows ?lines) ''X'') = [?first, ?second]"
    by code_simp
  have "?r \<in> set [?r]"
    by simp
  from first_range_only [OF run this] obtain firstRange later where
    "mergedRanges (entriesOf ?hs 0 1 2 (dataRows ?lines) (TimelineData.phase ?r)) =
       firstRange # later"
    "\<forall>x \<in> set later. PhaseEntry.endDate firstRange + 1 < PhaseEntry.startDate x"
    by blast
  with ranges have "daysFromCivil 2024 1 5 + 1 < daysFromCivil 2024 1 10"
    by auto
  with run ranges show ?thesis
    by blast
qed

section \<open>One record for each phase\<close>

text \<open>
  C3. When the consolidation succeeds, the phases of the records are pairwise different,
  they are exactly the non-empty trimmed values of the phase column of the data rows, and
  the start date of each record is the least start date among the entries of its phase.
\<close>

theorem one_record_per_phase:
  assumes "consolidate hs lines p s e = Inr out"
  shows "distinct (map TimelineData.phase out) \<and>
         set (map TimelineData.phase out) =
           {ph. ph \<noteq> [] \<and> (\<exists>line \<in> set (dataRows lines). at (cells line) p = Some ph)} \<and>
         (\<forall>r \<in> set out.
            entriesOf hs p s e (dataRows lines) (TimelineData.phase r) \<noteq> [] \<and>
            TimelineData.startDate r =
              Min (PhaseEntry.startDate `
                     set (entriesOf hs p s e (dataRows lines) (TimelineData.phase r))))"
proof (intro conjI ballI)
  from consolidate_phases [OF assms]
  show "distinct (map TimelineData.phase out)"
    by (simp add: distinct_ownKeysOrder distinct_firstAppearance)
  from consolidate_phases [OF assms]
  show "set (map TimelineData.phase out) =
          {ph. ph \<noteq> [] \<and> (\<exists>line \<in> set (dataRows lines). at (cells line) p = Some ph)}"
    by (simp only: set_ownKeysOrder set_firstAppearance set_phasesOf)
next
  fix r
  assume "r \<in> set out"
  from consolidatePhase_Inr [OF consolidate_record [OF assms this]]
  have ne: "mergedRanges (entriesOf hs p s e (dataRows lines) (TimelineData.phase r)) \<noteq> []"
    and start: "TimelineData.startDate r =
      PhaseEntry.startDate
        (hd (mergedRanges (entriesOf hs p s e (dataRows lines) (TimelineData.phase r))))"
    by simp_all
  from ne show entries: "entriesOf hs p s e (dataRows lines) (TimelineData.phase r) \<noteq> []"
    by (auto simp: mergedRanges_def)
  from mergedRanges_first [OF entries] start
  show "TimelineData.startDate r =
          Min (PhaseEntry.startDate `
                 set (entriesOf hs p s e (dataRows lines) (TimelineData.phase r)))"
    by simp
qed

theorem one_record_per_phase_witness:
  "consolidate [''phase'', ''startDate'', ''endDate'', ''owner'']
     [''phase,startDate,endDate,owner'', ''Design,2024-02-01,2024-02-10,ann'',
      ''Build,2024-03-01,2024-03-15,bob'', ''Design,2024-01-15,2024-02-03,cy''] 0 1 2 =
   Inr [\<lparr>TimelineData.phase = ''Design'', startDate = daysFromCivil 2024 1 15,
          endDate = daysFromCivil 2024 2 10, additionalData = Some [(''owner'', Some ''ann'')]\<rparr>,
        \<lparr>TimelineData.phase = ''Build'', startDate = daysFromCivil 2024 3 1,
          endDate = daysFromCivil 2024 3 15, additionalData = Some [(''owner'', Some ''bob'')]\<rparr>] \<and>
   daysFromCivil 2024 1 15 =
     Min (PhaseEntry.startDate `
       set (entriesOf [''phase'', ''startDate'', ''endDate'', ''owner''] 0 1 2
              (dataRows [''phase,startDate,endDate,owner'', ''Design,2024-02-01,2024-02-10,ann'',
                 ''Build,2024-03-01,2024-03-15,bob'', ''Design,2024-01-15,2024-02-03,cy''])
              ''Design''))"
proof -
  let ?hs = "[''phase'', ''startDate'', ''endDate'', ''owner'']"
  let ?lines = "[''phase,startDate,endDate,owner'', ''Design,2024-02-01,2024-02-10,ann'',
      ''Build,2024-03-01,2024-03-15,bob'', ''Design,2024-01-15,2024-02-03,cy'']"
  let ?design = "\<lparr>TimelineData.phase = ''Design'', startDate = daysFromCivil 2024 1 15,
          endDate = daysFromCivil 2024 2 10, additionalData = Some [(''owner'', Some ''ann'')]\<rparr>"
  let ?build = "\<lparr>TimelineData.phase = ''Build'', startDate = daysFromCivil 2024 3 1,
          endDate = daysFromCivil 2024 3 15, additionalData = Some [(''owner'', Some ''bob'')]\<rparr>"
  have run: "consolidate ?hs ?lines 0 1 2 = Inr [?design, ?build]"
    by code_simp
  from one_record_per_phase [OF run]
  have "\<forall>r \<in> set [?design, ?build].
          TimelineData.startDate r =
            Min (PhaseEntry.startDate `
                   set (entriesOf ?hs 0 1 2 (dataRows ?lines) (TimelineData.phase r)))"
    by blast
  then have "TimelineData.startDate ?design =
            Min (PhaseEntry.startDate `
                   set (entriesOf ?hs 0 1 2 (dataRows ?lines) (TimelineData.phase ?design)))"
    by (rule bspec) simp
  with run show ?thesis
    by simp
qed

section \<open>The order of the records\<close>

text \<open>
  C4, as the code has it. When the consolidation succeeds, the records come in the order
  in which \<open>Object.entries\<close> lists the phases: the phases that are array indices first, by
  ascending number, then the other phases in the order of their first appearance in the
  data rows. When no phase is an array index, this is the order of first appearance.
\<close>

theorem output_order:
  assumes "consolidate hs lines p s e = Inr out"
  shows "map TimelineData.phase out =
           ownKeysOrder (firstAppearance (phasesOf p (dataRows lines))) \<and>
         ((\<forall>ph \<in> set (phasesOf p (dataRows lines)). \<not> isArrayIndex ph) \<longrightarrow>
            map TimelineData.phase out = firstAppearance (phasesOf p (dataRows lines)))"
  using consolidate_phases [OF assms]
  by (simp add: ownKeysOrder_no_index set_firstAppearance)

theorem output_order_witness:
  "consolidate [''phase'', ''startDate'', ''endDate'']
     [''phase,startDate,endDate'', ''Test,2024-02-01,2024-02-10'',
      ''Build,2024-03-01,2024-03-15'', ''Test,2024-01-15,2024-02-03''] 0 1 2 =
   Inr [\<lparr>TimelineData.phase = ''Test'', startDate = daysFromCivil 2024 1 15,
          endDate = daysFromCivil 2024 2 10, additionalData = Some []\<rparr>,
        \<lparr>TimelineData.phase = ''Build'', startDate = daysFromCivil 2024 3 1,
          endDate = daysFromCivil 2024 3 15, additionalData = Some []\<rparr>] \<and>
   map isArrayIndex [''Test'', ''Build'', ''Test''] = [False, False, False] \<and>
   [''Test'', ''Build''] =
     firstAppearance (phasesOf 0 (dataRows [''phase,startDate,endDate'',
       ''Test,2024-02-01,2024-02-10'', ''Build,2024-03-01,2024-03-15'',
       ''Test,2024-01-15,2024-02-03'']))"
proof -
  let ?hs = "[''phase'', ''startDate'', ''endDate'']"
  let ?lines = "[''phase,startDate,endDate'', ''Test,2024-02-01,2024-02-10'',
      ''Build,2024-03-01,2024-03-15'', ''Test,2024-01-15,2024-02-03'']"
  let ?test = "\<lparr>TimelineData.phase = ''Test'', startDate = daysFromCivil 2024 1 15,
          endDate = daysFromCivil 2024 2 10, additionalData = Some []\<rparr>"
  let ?build = "\<lparr>TimelineData.phase = ''Build'', startDate = daysFromCivil 2024 3 1,
          endDate = daysFromCivil 2024 3 15, additionalData = Some []\<rparr>"
  have run: "consolidate ?hs ?lines 0 1 2 = Inr [?test, ?build]"
    by code_simp
  have phases: "phasesOf 0 (dataRows ?lines) = [''Test'', ''Build'', ''Test'']"
    by code_simp
  have plain: "map isArrayIndex [''Test'', ''Build'', ''Test''] = [False, False, False]"
    by code_simp
  then have "\<forall>ph \<in> set (phasesOf 0 (dataRows ?lines)). \<not> isArrayIndex ph"
    by (simp add: phases)
  with output_order [OF run]
  have "map TimelineData.phase [?test, ?build] = firstAppearance (phasesOf 0 (dataRows ?lines))"
    by blast
  with run plain show ?thesis
    by simp
qed

theorem output_order_counterexample:
  "processCSV
     ''phase,startDate,endDate\<newline>2,2024-01-01,2024-01-10\<newline>1,2024-02-01,2024-02-10''
     None =
     Inr (Timeline
       [\<lparr>TimelineData.phase = ''1'', startDate = daysFromCivil 2024 2 1,
          endDate = daysFromCivil 2024 2 10, additionalData = Some []\<rparr>,
        \<lparr>TimelineData.phase = ''2'', startDate = daysFromCivil 2024 1 1,
          endDate = daysFromCivil 2024 1 10, additionalData = Some []\<rparr>]) \<and>
   firstAppearance (phasesOf 0 [''2,2024-01-01,2024-01-10'', ''1,2024-02-01,2024-02-10'']) =
     [''2'', ''1'']"
  by code_simp

section \<open>Whole-batch failures on dates\<close>







section \<open>Rows without a phase\<close>

text \<open>
  C10. A data row whose phase cell is missing or empty after trimming is skipped before
  its dates are looked at: whatever its other cells hold, the loop goes on with the groups
  unchanged, and the consolidation gives what it gives without that row (the error for no
  valid data when it was the only data row).
\<close>

theorem skipped_row:
  assumes "at (cells line) p = None \<or> at (cells line) p = Some []"
  shows "processRow hs p s e line g = Inr g \<and>
         collectRows hs p s e (pre @ line # post) g = collectRows hs p s e (pre @ post) g \<and>
         (dataRows lines = pre @ line # post \<and> dataRows lines' = pre @ post \<longrightarrow>
            consolidate hs lines p s e =
              (if pre @ post = [] then Inl NoValidData else consolidate hs lines' p s e))"
proof -
  from assms have "phaseOf p line = None"
    by (auto simp: phaseOf_def)
  then have skip: "processRow hs p s e line g' = Inr g'" for g'
    by (simp add: processRow_skip)
  then have same: "collectRows hs p s e (pre @ line # post) g' =
      collectRows hs p s e (pre @ post) g'" for g'
    by (simp add: collectRows_append split: sum.splits)
  have "consolidate hs lines p s e =
          (if pre @ post = [] then Inl NoValidData else consolidate hs lines' p s e)"
    if "dataRows lines = pre @ line # post" and "dataRows lines' = pre @ post"
  proof (cases "pre @ post = []")
    case True
    with that same [of "[]"] show ?thesis
      by (simp add: consolidate_def)
  next
    case False
    with that same [of "[]"] show ?thesis
      by (simp add: consolidate_def)
  qed
  with skip same show ?thesis
    by blast
qed

theorem skipped_row_witness:
  "at (cells '' ,2024-02-30,2023-01-01'') 0 = Some [] \<and>
   processRow [''phase'', ''startDate'', ''endDate''] 0 1 2 '' ,2024-02-30,2023-01-01'' [] = Inr [] \<and>
   dataRows [''phase,startDate,endDate'', ''A,2024-01-01,2024-01-05'', '' ,2024-02-30,2023-01-01''] =
     [''A,2024-01-01,2024-01-05''] @ '' ,2024-02-30,2023-01-01'' # [] \<and>
   dataRows [''phase,startDate,endDate'', ''A,2024-01-01,2024-01-05''] =
     [''A,2024-01-01,2024-01-05''] @ [] \<and>
   consolidate [''phase'', ''startDate'', ''endDate'']
     [''phase,startDate,endDate'', ''A,2024-01-01,2024-01-05'', '' ,2024-02-30,2023-01-01''] 0 1 2 =
   consolidate [''phase'', ''startDate'', ''endDate'']
     [''phase,startDate,endDate'', ''A,2024-01-01,2024-01-05''] 0 1 2"
proof -
  let ?hs = "[''phase'', ''startDate'', ''endDate'']"
  have cell: "at (cells '' ,2024-02-30,2023-01-01'') 0 = Some []"
    by code_simp
  have rows: "dataRows [''phase,startDate,endDate'', ''A,2024-01-01,2024-01-05'',
        '' ,2024-02-30,2023-01-01''] =
      [''A,2024-01-01,2024-01-05''] @ '' ,2024-02-30,2023-01-01'' # []"
    by code_simp
  have rows': "dataRows [''phase,startDate,endDate'', ''A,2024-01-01,2024-01-05''] =
      [''A,2024-01-01,2024-01-05''] @ []"
    by code_simp
  from skipped_row [where hs = ?hs and s = 1 and e = 2 and g = "[]"
      and pre = "[''A,2024-01-01,2024-01-05'']" and post = "[]"
      and lines = "[''phase,startDate,endDate'', ''A,2024-01-01,2024-01-05'',
        '' ,2024-02-30,2023-01-01'']"
      and lines' = "[''phase,startDate,endDate'', ''A,2024-01-01,2024-01-05'']",
      OF disjI2 [OF cell]]
    rows rows' cell
  show ?thesis
    by simp
qed

section \<open>No data\<close>

text \<open>
  C8. Without data rows the consolidation fails with the error for no data rows; with
  data rows whose phase cells are all missing or empty it fails with the error for no
  valid data. Both are the spec's \<open>EmptyDataset\<close>. The third check, on the consolidated
  list, never fails: no input makes the consolidation end with its error.
\<close>

theorem empty_dataset:
  "(dataRows lines = [] \<longrightarrow> consolidate hs lines p s e = Inl NoDataRows) \<and>
   (dataRows lines \<noteq> [] \<and>
    (\<forall>line \<in> set (dataRows lines). at (cells line) p = None \<or> at (cells line) p = Some []) \<longrightarrow>
      consolidate hs lines p s e = Inl NoValidData) \<and>
   isEmptyDataset NoDataRows \<and> isEmptyDataset NoValidData \<and>
   consolidate hs lines p s e \<noteq> Inl NoTimelineData"
proof (intro conjI impI)
  assume "dataRows lines = []"
  then show "consolidate hs lines p s e = Inl NoDataRows"
    by (simp add: consolidate_def)
next
  assume a: "dataRows lines \<noteq> [] \<and>
    (\<forall>line \<in> set (dataRows lines). at (cells line) p = None \<or> at (cells line) p = Some [])"
  then have "collectRows hs p s e (dataRows lines) [] = Inr []"
    by (intro collectRows_all_skipped) (simp add: phaseOf_None_iff)
  with a show "consolidate hs lines p s e = Inl NoValidData"
    by (simp add: consolidate_def)
next
  show "isEmptyDataset NoDataRows" "isEmptyDataset NoValidData"
    by (simp_all add: isEmptyDataset_def)
next
  show "consolidate hs lines p s e \<noteq> Inl NoTimelineData"
  proof
    assume fail: "consolidate hs lines p s e = Inl NoTimelineData"
    then have ne: "dataRows lines \<noteq> []"
      by (auto simp: consolidate_def)
    show False
    proof (cases "collectRows hs p s e (dataRows lines) []")
      case (Inl err)
      with fail ne collectRows_error_kind [OF Inl] show False
        by (auto simp: consolidate_def)
    next
      case (Inr g)
      show False
      proof (cases "mapResult consolidatePhase (Object_entries g)")
        case (Inl err)
        with fail ne Inr mapResult_consolidatePhase_error [OF Inl] show False
          by (auto simp: consolidate_def split: if_splits)
      next
        case inr: (Inr out)
        with fail ne Inr have "g \<noteq> []" "out = []"
          by (auto simp: consolidate_def split: if_splits)
        with inr mapResult_Nil [of consolidatePhase "Object_entries g"] show False
          by (simp add: Object_entries_Nil)
      qed
    qed
  qed
qed

theorem empty_dataset_witness:
  "dataRows [''phase,startDate,endDate'', '' ''] = [] \<and>
   consolidate [''phase'', ''startDate'', ''endDate''] [''phase,startDate,endDate'', '' ''] 0 1 2 =
     Inl NoDataRows \<and>
   dataRows [''phase,startDate,endDate'', '',2024-01-01,2024-01-02''] =
     ['',2024-01-01,2024-01-02''] \<and>
   at (cells '',2024-01-01,2024-01-02'') 0 = Some [] \<and>
   consolidate [''phase'', ''startDate'', ''endDate'']
     [''phase,startDate,endDate'', '',2024-01-01,2024-01-02''] 0 1 2 = Inl NoValidData"
proof -
  let ?hs = "[''phase'', ''startDate'', ''endDate'']"
  have none: "dataRows [''phase,startDate,endDate'', '' ''] = []"
    by code_simp
  have rows: "dataRows [''phase,startDate,endDate'', '',2024-01-01,2024-01-02''] =
      ['',2024-01-01,2024-01-02'']"
    by code_simp
  have cell: "at (cells '',2024-01-01,2024-01-02'') 0 = Some []"
    by code_simp
  from empty_dataset [where lines = "[''phase,startDate,endDate'', '' '']" and hs = ?hs
      and p = 0 and s = 1 and e = 2] none
  have first: "consolidate ?hs [''phase,startDate,endDate'', '' ''] 0 1 2 = Inl NoDataRows"
    by blast
  from empty_dataset [where lines = "[''phase,startDate,endDate'', '',2024-01-01,2024-01-02'']"
      and hs = ?hs and p = 0 and s = 1 and e = 2] rows cell
  have "consolidate ?hs [''phase,startDate,endDate'', '',2024-01-01,2024-01-02''] 0 1 2 =
      Inl NoValidData"
    by simp
  with none rows cell first show ?thesis
    by blast
qed

section \<open>The mapping\<close>

text \<open>
  C7. Without a mapping, when one of the names \<open>phase\<close>, \<open>startDate\<close>, \<open>endDate\<close> is not
  among the headers, \<open>processCSV\<close> asks for a mapping and hands over the headers. With a
  mapping of which one column is not among the headers it throws the error for an
  invalid mapping, which is another result.
\<close>

theorem mapping_required_or_invalid:
  "(''phase'' \<notin> set (headersOf csvText) \<or> ''startDate'' \<notin> set (headersOf csvText) \<or>
    ''endDate'' \<notin> set (headersOf csvText) \<longrightarrow>
      processCSV csvText None = Inr (MappingRequired (headersOf csvText))) \<and>
   (FieldMapping.phase m \<notin> set (headersOf csvText) \<or>
    FieldMapping.startDate m \<notin> set (headersOf csvText) \<or>
    FieldMapping.endDate m \<notin> set (headersOf csvText) \<longrightarrow>
      processCSV csvText (Some m) = Inl InvalidMapping) \<and>
   (Inl InvalidMapping :: error + outcome) \<noteq> Inr (MappingRequired (headersOf csvText))"
proof -
  obtain line rest where lines: "split_str CHR 0x0A csvText = line # rest"
    using split_str_nonempty [of "CHR 0x0A" csvText] by (cases "split_str CHR 0x0A csvText") auto
  then have hs: "headersOf csvText = cells line"
    by (simp add: headersOf_def)
  show ?thesis
    by (auto simp: processCSV_def lines hs withMapping_def Let_def indexOf_None_iff [symmetric]
        split: option.splits)
qed

theorem mapping_required_or_invalid_witness:
  "headersOf ''name, begin ,finish\<newline>A,2024-01-01,2024-01-02'' =
     [''name'', ''begin'', ''finish''] \<and>
   processCSV ''name, begin ,finish\<newline>A,2024-01-01,2024-01-02'' None =
     Inr (MappingRequired [''name'', ''begin'', ''finish'']) \<and>
   processCSV ''name, begin ,finish\<newline>A,2024-01-01,2024-01-02''
     (Some \<lparr>FieldMapping.phase = ''name'', startDate = ''begin'', endDate = ''stop''\<rparr>) =
     Inl InvalidMapping"
proof -
  let ?csv = "''name, begin ,finish\<newline>A,2024-01-01,2024-01-02''"
  let ?m = "\<lparr>FieldMapping.phase = ''name'', startDate = ''begin'', endDate = ''stop''\<rparr>"
  have hs: "headersOf ?csv = [''name'', ''begin'', ''finish'']"
    by code_simp
  from mapping_required_or_invalid [where csvText = ?csv and m = ?m] show ?thesis
    by (simp add: hs)
qed

section \<open>Manual entries\<close>

text \<open>
  C9, as the code has it. When an entry has a phase that is empty after trimming or a
  start month after its end month, the batch fails with \<open>InvalidManualEntry\<close>. Otherwise
  the confirmation dialog decides: declined, nothing is delivered; confirmed, each entry
  gives one record with its phase, and in a year after 99 with months from 0 to 11 its
  dates are the first days of the two months of that year. Equal months give equal dates.
\<close>

theorem manual_entries:
  "((\<exists>en \<in> set entries. trim (ManualEntry.phase en) = [] \<or> startMonth en > endMonth en) \<longrightarrow>
      handleManualSubmit entries confirmed year = Inl InvalidManualEntry) \<and>
   (\<not> (\<exists>en \<in> set entries. trim (ManualEntry.phase en) = [] \<or> startMonth en > endMonth en) \<and>
    \<not> confirmed \<longrightarrow>
      handleManualSubmit entries confirmed year = Inr None) \<and>
   (\<not> (\<exists>en \<in> set entries. trim (ManualEntry.phase en) = [] \<or> startMonth en > endMonth en) \<and>
    confirmed \<longrightarrow>
      (\<exists>out. handleManualSubmit entries confirmed year = Inr (Some out) \<and>
         length out = length entries \<and>
         (\<forall>i < length entries.
            TimelineData.phase (out ! i) = ManualEntry.phase (entries ! i) \<and>
            (99 < year \<and> 0 \<le> startMonth (entries ! i) \<and> endMonth (entries ! i) \<le> 11 \<longrightarrow>
               TimelineData.startDate (out ! i) =
                 daysFromCivil year (startMonth (entries ! i) + 1) 1 \<and>
               TimelineData.endDate (out ! i) =
                 daysFromCivil year (endMonth (entries ! i) + 1) 1) \<and>
            (startMonth (entries ! i) = endMonth (entries ! i) \<longrightarrow>
               TimelineData.startDate (out ! i) = TimelineData.endDate (out ! i)))))"
proof -
  have valid: "(\<exists>en \<in> set entries. trim (ManualEntry.phase en) = [] \<or> startMonth en > endMonth en) \<longleftrightarrow>
      \<not> list_all validManualEntry entries"
    by (simp add: list_all_iff validManualEntry_def not_le)
  have months: "0 \<le> startMonth (entries ! i) \<and> endMonth (entries ! i) \<le> 11 \<Longrightarrow>
      startMonth (entries ! i) \<le> 11 \<and> 0 \<le> endMonth (entries ! i)"
    if "list_all validManualEntry entries" "i < length entries" for i
    using that by (auto simp: list_all_length validManualEntry_def)
  show ?thesis
    unfolding valid
    by (auto simp: handleManualSubmit_def toTimelineEntry_def newDate_in_year dest: months)
qed

theorem manual_entries_witness:
  "handleManualSubmit
     [\<lparr>ManualEntry.phase = ''  '', startMonth = 0, endMonth = 11, description = []\<rparr>]
     True 2024 = Inl InvalidManualEntry \<and>
   handleManualSubmit
     [\<lparr>ManualEntry.phase = ''Plan'', startMonth = 2, endMonth = 2, description = ''kickoff''\<rparr>]
     False 2024 = Inr None \<and>
   handleManualSubmit
     [\<lparr>ManualEntry.phase = ''Plan'', startMonth = 2, endMonth = 2, description = ''kickoff''\<rparr>]
     True 2024 =
     Inr (Some [\<lparr>TimelineData.phase = ''Plan'', startDate = daysFromCivil 2024 3 1,
                  endDate = daysFromCivil 2024 3 1,
                  additionalData = Some [(''description'', Some ''kickoff'')]\<rparr>])"
proof -
  let ?bad = "\<lparr>ManualEntry.phase = ''  '', startMonth = 0, endMonth = 11, description = []\<rparr>"
  let ?good = "\<lparr>ManualEntry.phase = ''Plan'', startMonth = 2, endMonth = 2,
      description = ''kickoff''\<rparr>"
  have "trim (ManualEntry.phase ?bad) = []"
    by code_simp
  then have bad: "\<exists>en \<in> set [?bad]. trim (ManualEntry.phase en) = [] \<or> startMonth en > endMonth en"
    by simp
  have "trim (ManualEntry.phase ?good) = ''Plan''"
    by code_simp
  then have good: "\<not> (\<exists>en \<in> set [?good].
      trim (ManualEntry.phase en) = [] \<or> startMonth en > endMonth en)"
    by simp
  from manual_entries [where entries = "[?bad]" and confirmed = True and year = 2024] bad
  have first: "handleManualSubmit [?bad] True 2024 = Inl InvalidManualEntry"
    by blast
  from manual_entries [where entries = "[?good]" and confirmed = False and year = 2024] good
  have second: "handleManualSubmit [?good] False 2024 = Inr None"
    by blast
  have third: "handleManualSubmit [?good] True 2024 =
     Inr (Some [\<lparr>TimelineData.phase = ''Plan'', startDate = daysFromCivil 2024 3 1,
                  endDate = daysFromCivil 2024 3 1,
                  additionalData = Some [(''description'', Some ''kickoff'')]\<rparr>])"
    by code_simp
  from first second third show ?thesis
    by blast
qed

theorem manual_entries_counterexample:
  "list_all validManualEntry
     [\<lparr>ManualEntry.phase = ''Plan'', startMonth = 0, endMonth = 11, description = []\<rparr>] \<and>
   handleManualSubmit
     [\<lparr>ManualEntry.phase = ''Plan'', startMonth = 0, endMonth = 11, description = []\<rparr>]
     False 2024 = Inr None"
  by code_simp

end
